theory Spec2Isabelle
  imports Main "HOL-Library.Multiset"
begin

section \<open>Scores: the numbers of the search\<close>

text \<open>
  Every number the engine computes is an integer (piece values, table entries and
  twice a move count) or one of the two initial values \<open>-Infinity\<close> and
  \<open>Infinity\<close> of the search loops. \<open>NegInf\<close> and \<open>PosInf\<close> stand for the
  two infinities, \<open>Num n\<close> for the finite number \<open>n\<close>; the order is the order of
  the numbers, and \<open>max\<close> and \<open>min\<close> are \<open>Math.max\<close> and \<open>Math.min\<close>.
\<close>

datatype score = NegInf | Num int | PosInf

instantiation score :: linorder
begin

fun less_eq_score :: "score \<Rightarrow> score \<Rightarrow> bool" where
  "less_eq_score NegInf _ = True"
| "less_eq_score _ PosInf = True"
| "less_eq_score (Num a) (Num b) = (a \<le> b)"
| "less_eq_score _ _ = False"

definition less_score :: "score \<Rightarrow> score \<Rightarrow> bool" where
  "less_score x y = (x \<le> y \<and> \<not> y \<le> x)"

instance
proof
  fix x y z :: score
  show "(x < y) = (x \<le> y \<and> \<not> y \<le> x)"
    by (simp add: less_score_def)
  show "x \<le> x"
    by (cases x) simp_all
  show "x \<le> y \<Longrightarrow> y \<le> z \<Longrightarrow> x \<le> z"
    by (cases x; cases y; cases z) simp_all
  show "x \<le> y \<Longrightarrow> y \<le> x \<Longrightarrow> x = y"
    by (cases x; cases y) simp_all
  show "x \<le> y \<or> y \<le> x"
    by (cases x; cases y) auto
qed

end

section \<open>The rules engine\<close>

text \<open>
  The positions are objects of the class \<open>Chess\<close> of the library chess.js, which
  is not part of the repository. The search only calls its methods, so the library is
  a parameter: a record with one field for each method the code calls, over a type
  \<open>'p\<close> of positions and a type \<open>'m\<close> of moves (chess.js hands out moves as
  strings in algebraic notation). The object is mutated in place by \<open>move\<close> and
  \<open>undo\<close>; the model passes the position along and returns the new one.
\<close>

datatype color = White | Black

datatype piece_type = Pawn | Knight | Bishop | Rook | Queen | King

text \<open>
  A piece on the board has the fields \<open>type\<close> and \<open>color\<close>, here
  \<open>ptype\<close> and \<open>pcolor\<close>. The object that \<open>chess.move\<close> returns has
  the fields \<open>captured\<close>, \<open>piece\<close> (here \<open>moved\<close>) and \<open>promotion\<close>,
  the ones the move orderer reads; a field the object does not have is \<open>None\<close>.
\<close>

record piece =
  ptype :: piece_type
  pcolor :: color

record move_result =
  captured :: "piece_type option"
  moved :: piece_type
  promotion :: "piece_type option"

record ('p, 'm) chess =
  initial :: 'p
  moves :: "'p \<Rightarrow> 'm list"
  move :: "'p \<Rightarrow> 'm \<Rightarrow> 'p"
  moveObj :: "'p \<Rightarrow> 'm \<Rightarrow> move_result"
  accepts :: "'p \<Rightarrow> 'm \<Rightarrow> bool"
  san :: "'p \<Rightarrow> 'm \<Rightarrow> string"
  undo :: "'p \<Rightarrow> 'p"
  turn :: "'p \<Rightarrow> color"
  isCheck :: "'p \<Rightarrow> bool"
  isCheckmate :: "'p \<Rightarrow> bool"
  isDraw :: "'p \<Rightarrow> bool"
  isGameOver :: "'p \<Rightarrow> bool"
  board :: "'p \<Rightarrow> nat \<Rightarrow> nat \<Rightarrow> piece option"
  ascii :: "'p \<Rightarrow> string"

text \<open>
  \<open>initial\<close> is \<open>new Chess()\<close>. \<open>move E p m\<close> is the position after
  \<open>chess.move(m)\<close> for a move \<open>m\<close> the engine accepts and \<open>moveObj E p m\<close> the
  object that call returns; \<open>accepts E p m\<close> says whether \<open>chess.move(m)\<close>
  plays the move (otherwise it returns \<open>null\<close> or throws, depending on the version
  of the library, and the position stays as it is), and \<open>san E p m\<close> is the field
  \<open>san\<close> of the returned object. The search applies only moves it has taken from
  \<open>chess.moves()\<close>. \<open>board E p row col\<close> is \<open>chess.board()[row][col]\<close>, read
  only for rows and columns 0 to 7, with \<open>None\<close> for an empty square.
\<close>

section \<open>The static evaluator\<close>

fun PIECE_VALUES :: "piece_type \<Rightarrow> int" where
  "PIECE_VALUES Pawn = 100"
| "PIECE_VALUES Knight = 320"
| "PIECE_VALUES Bishop = 330"
| "PIECE_VALUES Rook = 500"
| "PIECE_VALUES Queen = 900"
| "PIECE_VALUES King = 20000"

fun PST :: "piece_type \<Rightarrow> int list list" where
  "PST Pawn =
    [[0,  0,  0,  0,  0,  0,  0,  0],
     [50, 50, 50, 50, 50, 50, 50, 50],
     [10, 10, 20, 30, 30, 20, 10, 10],
     [5,  5, 10, 25, 25, 10,  5,  5],
     [0,  0,  0, 20, 20,  0,  0,  0],
     [5, -5,-10,  0,  0,-10, -5,  5],
     [5, 10, 10,-20,-20, 10, 10,  5],
     [0,  0,  0,  0,  0,  0,  0,  0]]"
| "PST Knight =
    [[-50,-40,-30,-30,-30,-30,-40,-50],
     [-40,-20,  0,  0,  0,  0,-20,-40],
     [-30,  0, 10, 15, 15, 10,  0,-30],
     [-30,  5, 15, 20, 20, 15,  5,-30],
     [-30,  0, 15, 20, 20, 15,  0,-30],
     [-30,  5, 10, 15, 15, 10,  5,-30],
     [-40,-20,  0,  5,  5,  0,-20,-40],
     [-50,-40,-30,-30,-30,-30,-40,-50]]"
| "PST Bishop =
    [[-20,-10,-10,-10,-10,-10,-10,-20],
     [-10,  0,  0,  0,  0,  0,  0,-10],
     [-10,  0, 10, 10, 10, 10,  0,-10],
     [-10,  5,  5, 10, 10,  5,  5,-10],
     [-10,  0,  5, 10, 10,  5,  0,-10],
     [-10,  5,  5,  5,  5,  5,  5,-10],
     [-10,  5,  0,  0,  0,  0,  5,-10],
     [-20,-10,-10,-10,-10,-10,-10,-20]]"
| "PST Rook =
    [[0,  0,  0,  0,  0,  0,  0,  0],
     [5, 10, 10, 10, 10, 10, 10,  5],
     [-5,  0,  0,  0,  0,  0,  0, -5],
     [-5,  0,  0,  0,  0,  0,  0, -5],
     [-5,  0,  0,  0,  0,  0,  0, -5],
     [-5,  0,  0,  0,  0,  0,  0, -5],
     [-5,  0,  0,  0,  0,  0,  0, -5],
     [0,  0,  0,  5,  5,  0,  0,  0]]"
| "PST Queen =
    [[-20,-10,-10, -5, -5,-10,-10,-20],
     [-10,  0,  0,  0,  0,  0,  0,-10],
     [-10,  0,  5,  5,  5,  5,  0,-10],
     [-5,  0,  5,  5,  5,  5,  0, -5],
     [0,  0,  5,  5,  5,  5,  0, -5],
     [-10,  5,  5,  5,  5,  5,  0,-10],
     [-10,  0,  5,  0,  0,  0,  0,-10],
     [-20,-10,-10, -5, -5,-10,-10,-20]]"
| "PST King =
    [[-30,-40,-40,-50,-50,-40,-40,-30],
     [-30,-40,-40,-50,-50,-40,-40,-30],
     [-30,-40,-40,-50,-50,-40,-40,-30],
     [-30,-40,-40,-50,-50,-40,-40,-30],
     [-20,-30,-30,-40,-40,-30,-30,-20],
     [-10,-20,-20,-20,-20,-20,-20,-10],
     [20, 20,  0,  0,  0,  0, 20, 20],
     [20, 30, 10,  0,  0, 10, 30, 20]]"

text \<open>
  \<open>getPST\<close>: the table of the piece's kind, read at the row itself for a white
  piece and at the mirrored row for a black one. Every kind of piece has a table, so
  the source's guard for a missing table never fires. The callers pass rows and
  columns 0 to 7, inside the tables.
\<close>

definition getPST :: "piece \<Rightarrow> nat \<Rightarrow> nat \<Rightarrow> int" where
  "getPST pc row col =
     (let table = PST (ptype pc);
          r = (if pcolor pc = White then row else 7 - row)
      in table ! r ! col)"

text \<open>
  The body of the two nested loops of \<open>evaluatePosition\<close> for one square: the
  score after the square, from the score before it.
\<close>

definition squareScore :: "(nat \<Rightarrow> nat \<Rightarrow> piece option) \<Rightarrow> nat \<Rightarrow> nat \<Rightarrow> int \<Rightarrow> int" where
  "squareScore bd row col score =
     (case bd row col of
        None \<Rightarrow> score
      | Some pc \<Rightarrow>
          (let materialValue = PIECE_VALUES (ptype pc);
               positionalValue = getPST pc row col;
               totalValue = materialValue + positionalValue
           in score + (if pcolor pc = White then totalValue else - totalValue)))"

definition boardScore :: "(nat \<Rightarrow> nat \<Rightarrow> piece option) \<Rightarrow> int" where
  "boardScore bd =
     fold (\<lambda>row score. fold (\<lambda>col score. squareScore bd row col score) [0..<8] score)
       [0..<8] 0"

definition evaluatePosition :: "('p, 'm) chess \<Rightarrow> 'p \<Rightarrow> int" where
  "evaluatePosition E p =
     (if isCheckmate E p then (if turn E p = White then - 99999 else 99999)
      else if isDraw E p then 0
      else
        (let score = boardScore (board E p);
             currentTurn = turn E p;
             mobility = int (length (moves E p))
         in score + (if currentTurn = White then mobility * 2 else - mobility * 2)))"

section \<open>The move orderer\<close>

text \<open>
  The callback that \<open>orderMoves\<close> maps over the moves: it plays the move, scores
  it, takes it back, and returns the move with its score. The position is an object
  mutated in place, so the callback also returns the position it leaves behind.
\<close>

definition scoreMove :: "('p, 'm) chess \<Rightarrow> 'p \<Rightarrow> 'm \<Rightarrow> ('m \<times> int) \<times> 'p" where
  "scoreMove E p m =
     (let mo = moveObj E p m;
          p1 = move E p m;
          score0 = 0;
          score1 = (case captured mo of
                      Some c \<Rightarrow> score0 + (10 * PIECE_VALUES c - PIECE_VALUES (moved mo))
                    | None \<Rightarrow> score0);
          score2 = (case promotion mo of
                      Some pr \<Rightarrow> score1 + PIECE_VALUES pr
                    | None \<Rightarrow> score1);
          score3 = (if isCheck E p1 then score2 + 50 else score2);
          p2 = undo E p1
      in ((m, score3), p2))"

text \<open>The score that the callback gives the move \<open>m\<close> in the position \<open>p\<close>.\<close>

definition moveScore :: "('p, 'm) chess \<Rightarrow> 'p \<Rightarrow> 'm \<Rightarrow> int" where
  "moveScore E p m = snd (fst (scoreMove E p m))"

fun scoreMoves :: "('p, 'm) chess \<Rightarrow> 'p \<Rightarrow> 'm list \<Rightarrow> ('m \<times> int) list \<times> 'p" where
  "scoreMoves E p [] = ([], p)"
| "scoreMoves E p (m # ms) =
     (let (s, p') = scoreMove E p m;
          (ss, p'') = scoreMoves E p' ms
      in (s # ss, p''))"

text \<open>
  \<open>scored.sort((a, b) => b.score - a.score)\<close>: the sort of JavaScript arrays is
  stable, so the result is the stable arrangement by descending score, which is what
  the stable insertion sort \<open>sort_key\<close> computes on the negated score.
\<close>

definition orderMoves :: "('p, 'm) chess \<Rightarrow> 'p \<Rightarrow> 'm list \<Rightarrow> 'm list \<times> 'p" where
  "orderMoves E p ms =
     (let (scored, p') = scoreMoves E p ms;
          ranked = sort_key (\<lambda>s. - snd s) scored
      in (map fst ranked, p'))"

section \<open>The search\<close>

text \<open>
  The loop over the moves of a maximizing node. \<open>child\<close> is the recursive call on
  the position after the move, with the window of the moment; it returns the score and
  the position it leaves behind, or \<open>None\<close> when it does not return. The loop
  plays the move, calls \<open>child\<close>, takes the move back, and stops at the first
  \<open>beta <= alpha\<close>.
\<close>

fun loopMax ::
  "('p \<Rightarrow> score \<Rightarrow> score \<Rightarrow> (score \<times> 'p) option) \<Rightarrow> ('p, 'm) chess \<Rightarrow> 'm list \<Rightarrow>
   'p \<Rightarrow> score \<Rightarrow> score \<Rightarrow> score \<Rightarrow> (score \<times> 'p) option" where
  "loopMax child E [] p alpha beta maxScore = Some (maxScore, p)"
| "loopMax child E (m # ms) p alpha beta maxScore =
     (case child (move E p m) alpha beta of
        None \<Rightarrow> None
      | Some (score, p1) \<Rightarrow>
          (let p2 = undo E p1;
               maxScore' = max maxScore score;
               alpha' = max alpha score
           in if beta \<le> alpha' then Some (maxScore', p2)
              else loopMax child E ms p2 alpha' beta maxScore'))"

fun loopMin ::
  "('p \<Rightarrow> score \<Rightarrow> score \<Rightarrow> (score \<times> 'p) option) \<Rightarrow> ('p, 'm) chess \<Rightarrow> 'm list \<Rightarrow>
   'p \<Rightarrow> score \<Rightarrow> score \<Rightarrow> score \<Rightarrow> (score \<times> 'p) option" where
  "loopMin child E [] p alpha beta minScore = Some (minScore, p)"
| "loopMin child E (m # ms) p alpha beta minScore =
     (case child (move E p m) alpha beta of
        None \<Rightarrow> None
      | Some (score, p1) \<Rightarrow>
          (let p2 = undo E p1;
               minScore' = min minScore score;
               beta' = min beta score
           in if beta' \<le> alpha then Some (minScore', p2)
              else loopMin child E ms p2 alpha beta' minScore'))"

text \<open>
  \<open>minimax\<close>. The depth is the number the caller passes, taken to be an integer,
  compared with 0 and decreased by 1; a negative depth never meets 0, and the recursion
  then ends only where the game is over. The first argument is fuel: it bounds the nesting of
  the recursive calls, and \<open>None\<close> means that the fuel did not suffice. The result
  is the score together with the position the call leaves behind.
\<close>

fun minimax ::
  "nat \<Rightarrow> ('p, 'm) chess \<Rightarrow> 'p \<Rightarrow> int \<Rightarrow> score \<Rightarrow> score \<Rightarrow> bool \<Rightarrow> (score \<times> 'p) option" where
  "minimax 0 E p depth alpha beta isMaximizing = None"
| "minimax (Suc fuel) E p depth alpha beta isMaximizing =
     (if depth = 0 \<or> isGameOver E p then Some (Num (evaluatePosition E p), p)
      else
        (let ms = moves E p;
             (orderedMoves, p0) = (if length ms > 10 then orderMoves E p ms else (ms, p))
         in if isMaximizing
            then loopMax (\<lambda>q a b. minimax fuel E q (depth - 1) a b False)
                   E orderedMoves p0 alpha beta NegInf
            else loopMin (\<lambda>q a b. minimax fuel E q (depth - 1) a b True)
                   E orderedMoves p0 alpha beta PosInf))"

text \<open>
  The loop of \<open>getBestMove\<close> over the ranked root moves: a later move replaces the
  best one only when its score is strictly better.
\<close>

fun loopBest ::
  "('p \<Rightarrow> (score \<times> 'p) option) \<Rightarrow> ('p, 'm) chess \<Rightarrow> 'm list \<Rightarrow> 'p \<Rightarrow> bool \<Rightarrow>
   'm option \<Rightarrow> score \<Rightarrow> ('m option \<times> 'p) option" where
  "loopBest child E [] p isMaximizing bestMove bestScore = Some (bestMove, p)"
| "loopBest child E (m # ms) p isMaximizing bestMove bestScore =
     (case child (move E p m) of
        None \<Rightarrow> None
      | Some (score, p1) \<Rightarrow>
          (let p2 = undo E p1
           in if isMaximizing
              then (if score > bestScore
                    then loopBest child E ms p2 isMaximizing (Some m) score
                    else loopBest child E ms p2 isMaximizing bestMove bestScore)
              else (if score < bestScore
                    then loopBest child E ms p2 isMaximizing (Some m) score
                    else loopBest child E ms p2 isMaximizing bestMove bestScore)))"

text \<open>
  \<open>getBestMove\<close>. The result \<open>None\<close> in the first component is the source's
  \<open>null\<close>. \<open>orderedMoves[0]\<close> is the head of the ranked list, and
  \<open>undefined\<close> (here \<open>None\<close> as well) if that list were empty.
\<close>

definition getBestMove ::
  "nat \<Rightarrow> ('p, 'm) chess \<Rightarrow> 'p \<Rightarrow> int \<Rightarrow> ('m option \<times> 'p) option" where
  "getBestMove fuel E p depth =
     (let ms = moves E p
      in if length ms = 0 then Some (None, p)
         else
           (let (orderedMoves, p0) = orderMoves E p ms;
                isMaximizing = (turn E p0 = White);
                bestMove = (case orderedMoves of [] \<Rightarrow> None | m # _ \<Rightarrow> Some m);
                bestScore = (if isMaximizing then NegInf else PosInf)
            in loopBest (\<lambda>q. minimax fuel E q (depth - 1) NegInf PosInf (\<not> isMaximizing))
                 E orderedMoves p0 isMaximizing bestMove bestScore))"

section \<open>The second copy of the server\<close>

text \<open>
  The file holds a second, simpler copy of the server: its evaluator counts material
  only and returns an infinity for checkmate, its search does not rank the moves, and
  its handler bounds the depth by 4. The names are those of the source, with the
  suffix \<open>2\<close>.
\<close>

definition squareScore2 :: "(nat \<Rightarrow> nat \<Rightarrow> piece option) \<Rightarrow> nat \<Rightarrow> nat \<Rightarrow> int \<Rightarrow> int" where
  "squareScore2 bd row col score =
     (case bd row col of
        None \<Rightarrow> score
      | Some pc \<Rightarrow>
          (let v = PIECE_VALUES (ptype pc)
           in score + (if pcolor pc = White then v else - v)))"

definition evaluatePosition2 :: "('p, 'm) chess \<Rightarrow> 'p \<Rightarrow> score" where
  "evaluatePosition2 E p =
     (if isCheckmate E p then (if turn E p = White then NegInf else PosInf)
      else if isDraw E p then Num 0
      else Num (fold (\<lambda>row score. fold (\<lambda>col score. squareScore2 (board E p) row col score)
                        [0..<8] score) [0..<8] 0))"

fun minimax2 ::
  "nat \<Rightarrow> ('p, 'm) chess \<Rightarrow> 'p \<Rightarrow> int \<Rightarrow> score \<Rightarrow> score \<Rightarrow> bool \<Rightarrow> (score \<times> 'p) option" where
  "minimax2 0 E p depth alpha beta isMaximizing = None"
| "minimax2 (Suc fuel) E p depth alpha beta isMaximizing =
     (if depth = 0 \<or> isGameOver E p then Some (evaluatePosition2 E p, p)
      else
        (let ms = moves E p
         in if isMaximizing
            then loopMax (\<lambda>q a b. minimax2 fuel E q (depth - 1) a b False)
                   E ms p alpha beta NegInf
            else loopMin (\<lambda>q a b. minimax2 fuel E q (depth - 1) a b True)
                   E ms p alpha beta PosInf))"

definition getBestMove2 ::
  "nat \<Rightarrow> ('p, 'm) chess \<Rightarrow> 'p \<Rightarrow> int \<Rightarrow> ('m option \<times> 'p) option" where
  "getBestMove2 fuel E p depth =
     (let ms = moves E p
      in if length ms = 0 then Some (None, p)
         else
           (let isMaximizing = (turn E p = White);
                bestMove = (case ms of [] \<Rightarrow> None | m # _ \<Rightarrow> Some m);
                bestScore = (if isMaximizing then NegInf else PosInf)
            in loopBest (\<lambda>q. minimax2 fuel E q (depth - 1) NegInf PosInf (\<not> isMaximizing))
                 E ms p isMaximizing bestMove bestScore))"

section \<open>The tool handler\<close>

text \<open>
  The arguments of a tool call: the game identifier, the move of \<open>make_move\<close>, and
  the optional depth of \<open>get_best_move\<close> (\<open>None\<close> when the caller leaves it
  out). The result is the text of the single content item and the flag
  \<open>isError\<close>, which is false where the source does not set it. The state of the
  server is the map \<open>games\<close> from identifiers to positions.
\<close>

record tool_args =
  game_id :: string
  move_arg :: string
  depth_arg :: "int option"

record tool_result =
  text_of :: string
  isError :: bool

fun join :: "string list \<Rightarrow> string" where
  "join [] = []"
| "join [x] = x"
| "join (x # y # ys) = x @ '', '' @ join (y # ys)"

text \<open>
  \<open>Math.min(args.depth || 3, ceiling)\<close>: a missing depth and the depth 0 are falsy
  and become 3.
\<close>

definition clampDepth :: "int \<Rightarrow> int option \<Rightarrow> int" where
  "clampDepth ceiling d =
     min (case d of None \<Rightarrow> 3 | Some n \<Rightarrow> (if n = 0 then 3 else n)) ceiling"

definition gameNotFound :: tool_result where
  "gameNotFound = \<lparr>text_of = ''Game not found'', isError = True\<rparr>"

text \<open>
  \<open>bestMove || 'No moves available'\<close>: \<open>null\<close> and the empty string are falsy.
\<close>

definition bestMoveText :: "string option \<Rightarrow> string" where
  "bestMoveText bestMove =
     (case bestMove of
        None \<Rightarrow> ''No moves available''
      | Some m \<Rightarrow> (if m = [] then ''No moves available'' else m))"

text \<open>
  The handler of the tool calls, over the function \<open>best\<close> that the case
  \<open>get_best_move\<close> calls and the ceiling of its depth. It returns the result and
  the new map of games, or \<open>None\<close> when the search does not return.
\<close>

definition handleCall ::
  "('p \<Rightarrow> int \<Rightarrow> (string option \<times> 'p) option) \<Rightarrow> int \<Rightarrow> ('p, string) chess \<Rightarrow>
   (string \<rightharpoonup> 'p) \<Rightarrow> string \<Rightarrow> tool_args \<Rightarrow> (tool_result \<times> (string \<rightharpoonup> 'p)) option" where
  "handleCall best ceiling E games name args =
     (if name = ''new_game'' then
        Some (\<lparr>text_of = ''New game created with ID: '' @ game_id args, isError = False\<rparr>,
              games(game_id args \<mapsto> initial E))
      else if name = ''get_legal_moves'' then
        (case games (game_id args) of
           None \<Rightarrow> Some (gameNotFound, games)
         | Some chess \<Rightarrow>
             Some (\<lparr>text_of = join (moves E chess), isError = False\<rparr>, games))
      else if name = ''make_move'' then
        (case games (game_id args) of
           None \<Rightarrow> Some (gameNotFound, games)
         | Some chess \<Rightarrow>
             (if accepts E chess (move_arg args)
              then Some (\<lparr>text_of = ''Move '' @ san E chess (move_arg args)
                                      @ '' played successfully'',
                           isError = False\<rparr>,
                         games(game_id args \<mapsto> move E chess (move_arg args)))
              else Some (\<lparr>text_of = ''Invalid move: '' @ move_arg args, isError = True\<rparr>,
                         games)))
      else if name = ''get_best_move'' then
        (case games (game_id args) of
           None \<Rightarrow> Some (gameNotFound, games)
         | Some chess \<Rightarrow>
             (let depth = clampDepth ceiling (depth_arg args)
              in case best chess depth of
                   None \<Rightarrow> None
                 | Some (bestMove, chess') \<Rightarrow>
                     Some (\<lparr>text_of = bestMoveText bestMove, isError = False\<rparr>,
                           games(game_id args \<mapsto> chess'))))
      else if name = ''get_board'' then
        (case games (game_id args) of
           None \<Rightarrow> Some (gameNotFound, games)
         | Some chess \<Rightarrow> Some (\<lparr>text_of = ascii E chess, isError = False\<rparr>, games))
      else Some (\<lparr>text_of = ''Unknown tool: '' @ name, isError = True\<rparr>, games))"

definition callTool ::
  "nat \<Rightarrow> ('p, string) chess \<Rightarrow> (string \<rightharpoonup> 'p) \<Rightarrow> string \<Rightarrow> tool_args \<Rightarrow>
   (tool_result \<times> (string \<rightharpoonup> 'p)) option" where
  "callTool fuel E = handleCall (getBestMove fuel E) 3 E"

definition callTool2 ::
  "nat \<Rightarrow> ('p, string) chess \<Rightarrow> (string \<rightharpoonup> 'p) \<Rightarrow> string \<Rightarrow> tool_args \<Rightarrow>
   (tool_result \<times> (string \<rightharpoonup> 'p)) option" where
  "callTool2 fuel E = handleCall (getBestMove2 fuel E) 4 E"

section \<open>The unpruned search of the specification\<close>

text \<open>
  The full minimax value of a position over the tree of the given depth, as the
  specification words it: a leaf (depth 0, or a position where the game is over) has
  the value of the static evaluator, a maximizing node the greatest value of its
  children, a minimizing node the least. No window, no cut-off, no ranking; the
  children of a position are the positions after each of its moves.
\<close>

fun fullMinimax :: "('p, 'm) chess \<Rightarrow> nat \<Rightarrow> 'p \<Rightarrow> bool \<Rightarrow> score" where
  "fullMinimax E 0 p isMaximizing = Num (evaluatePosition E p)"
| "fullMinimax E (Suc d) p isMaximizing =
     (if isGameOver E p then Num (evaluatePosition E p)
      else
        (let vs = map (\<lambda>m. fullMinimax E d (move E p m) (\<not> isMaximizing)) (moves E p)
         in if isMaximizing then fold max vs NegInf else fold min vs PosInf))"

section \<open>The search with another ranking step\<close>

text \<open>
  The search of the source with its ranking step replaced by a parameter \<open>rank\<close>,
  which receives the position and the move list and returns the list to explore and the
  position it leaves behind. \<open>rankMoves\<close> is the ranking step the source has; any
  other \<open>rank\<close> is the search with the move orderer bypassed.
\<close>

definition rankMoves :: "('p, 'm) chess \<Rightarrow> 'p \<Rightarrow> 'm list \<Rightarrow> 'm list \<times> 'p" where
  "rankMoves E p ms = (if length ms > 10 then orderMoves E p ms else (ms, p))"

fun minimaxVia ::
  "('p \<Rightarrow> 'm list \<Rightarrow> 'm list \<times> 'p) \<Rightarrow> nat \<Rightarrow> ('p, 'm) chess \<Rightarrow> 'p \<Rightarrow> int \<Rightarrow>
   score \<Rightarrow> score \<Rightarrow> bool \<Rightarrow> (score \<times> 'p) option" where
  "minimaxVia rank 0 E p depth alpha beta isMaximizing = None"
| "minimaxVia rank (Suc fuel) E p depth alpha beta isMaximizing =
     (if depth = 0 \<or> isGameOver E p then Some (Num (evaluatePosition E p), p)
      else
        (let ms = moves E p;
             (orderedMoves, p0) = rank p ms
         in if isMaximizing
            then loopMax (\<lambda>q a b. minimaxVia rank fuel E q (depth - 1) a b False)
                   E orderedMoves p0 alpha beta NegInf
            else loopMin (\<lambda>q a b. minimaxVia rank fuel E q (depth - 1) a b True)
                   E orderedMoves p0 alpha beta PosInf))"

section \<open>Properties of the rules engine that the claims assume\<close>

text \<open>Each undo exactly reverts the most recent move.\<close>

definition undoReverts :: "('p, 'm) chess \<Rightarrow> bool" where
  "undoReverts E = (\<forall>p m. undo E (move E p m) = p)"

text \<open>A ranking step returns a permutation of the moves and leaves the position alone.\<close>

definition keepsMoves :: "('p \<Rightarrow> 'm list \<Rightarrow> 'm list \<times> 'p) \<Rightarrow> bool" where
  "keepsMoves rank = (\<forall>p ms. mset (fst (rank p ms)) = mset ms \<and> snd (rank p ms) = p)"

text \<open>
  The relation between the result \<open>r\<close> of a search with the window from \<open>a\<close> to
  \<open>b\<close> and the true value \<open>v\<close>: equal when \<open>r\<close> lies strictly inside the
  window, an upper bound of \<open>v\<close> when \<open>r\<close> is at or below \<open>a\<close>, a lower bound
  when it is at or above \<open>b\<close>.
\<close>

definition within :: "score \<Rightarrow> score \<Rightarrow> score \<Rightarrow> score \<Rightarrow> bool" where
  "within a b v r = (min v b \<le> r \<and> r \<le> max v a)"

text \<open>The 64 squares, and the number of kings of a colour on a board.\<close>

definition squares :: "(nat \<times> nat) list" where
  "squares = List.product [0..<8] [0..<8]"

definition kings :: "(nat \<Rightarrow> nat \<Rightarrow> piece option) \<Rightarrow> color \<Rightarrow> nat" where
  "kings bd c =
     length (filter (\<lambda>(row, col). bd row col = Some \<lparr>ptype = King, pcolor = c\<rparr>) squares)"

text \<open>Whether the king of a colour stands on a square.\<close>

definition isKing :: "(nat \<Rightarrow> nat \<Rightarrow> piece option) \<Rightarrow> color \<Rightarrow> nat \<times> nat \<Rightarrow> bool" where
  "isKing bd c sq = (bd (fst sq) (snd sq) = Some \<lparr>ptype = King, pcolor = c\<rparr>)"

text \<open>
  The rules of chess that the mate-in-one claim relies on: a move passes the turn, a
  checkmate ends the game, a position without a legal move is over, and the static
  evaluation of a position that is not checkmate stays below the mate value.
\<close>

definition chessRules :: "('p, 'm) chess \<Rightarrow> bool" where
  "chessRules E =
     ((\<forall>p m. turn E (move E p m) \<noteq> turn E p) \<and>
      (\<forall>p. isCheckmate E p \<longrightarrow> isGameOver E p) \<and>
      (\<forall>p. moves E p = [] \<longrightarrow> isGameOver E p) \<and>
      (\<forall>p. \<not> isCheckmate E p \<longrightarrow> \<bar>evaluatePosition E p\<bar> < 99999))"

section \<open>A sample engine\<close>

text \<open>
  A small engine for concrete runs: a few lines of play from the position with White
  Kg1, Qf2, Ra1, Bb3 and Black Kg8, pawns f7, g7, h7, White to move
  (6k1/5ppp/8/8/8/1B6/5Q2/R5K1 w). White mates in one with Ra8 and in two with Qxf7+
  Kh8 Qf8. A position is the list of the moves played, the latest first; the engine
  knows the moves listed in \<open>demoMoves\<close> and counts the end of every other line as
  a draw. Rows and columns are those of \<open>chess.board()\<close>: row 0 is the eighth rank,
  column 0 the a-file.
\<close>

definition demoStart :: "((nat \<times> nat) \<times> piece) list" where
  "demoStart =
     [((0, 6), \<lparr>ptype = King, pcolor = Black\<rparr>),
      ((1, 5), \<lparr>ptype = Pawn, pcolor = Black\<rparr>),
      ((1, 6), \<lparr>ptype = Pawn, pcolor = Black\<rparr>),
      ((1, 7), \<lparr>ptype = Pawn, pcolor = Black\<rparr>),
      ((5, 1), \<lparr>ptype = Bishop, pcolor = White\<rparr>),
      ((6, 5), \<lparr>ptype = Queen, pcolor = White\<rparr>),
      ((7, 0), \<lparr>ptype = Rook, pcolor = White\<rparr>),
      ((7, 6), \<lparr>ptype = King, pcolor = White\<rparr>)]"

definition demoSquares :: "string \<Rightarrow> ((nat \<times> nat) \<times> (nat \<times> nat)) option" where
  "demoSquares m =
     (if m = ''Kh1'' then Some ((7, 6), (7, 7))
      else if m = ''Qf6'' then Some ((6, 5), (2, 5))
      else if m = ''Ra8#'' then Some ((7, 0), (0, 0))
      else if m = ''Qxf7+'' \<or> m = ''Qxf7#'' then Some ((6, 5), (1, 5))
      else if m = ''Qf8#'' then Some ((1, 5), (0, 5))
      else if m = ''h6'' then Some ((1, 7), (2, 7))
      else if m = ''Kf8'' then Some ((0, 6), (0, 5))
      else if m = ''Kh8'' then Some ((0, 6), (0, 7))
      else if m = ''gxf6'' then Some ((1, 6), (2, 5))
      else None)"

definition demoPlay :: "string \<Rightarrow> ((nat \<times> nat) \<times> piece) list \<Rightarrow> ((nat \<times> nat) \<times> piece) list" where
  "demoPlay m ps =
     (case demoSquares m of
        None \<Rightarrow> ps
      | Some (src, dst) \<Rightarrow>
          (case map_of ps src of
             None \<Rightarrow> ps
           | Some pc \<Rightarrow> (dst, pc) # filter (\<lambda>(sq, _). sq \<noteq> src \<and> sq \<noteq> dst) ps))"

definition demoMoves :: "string list \<Rightarrow> string list" where
  "demoMoves p =
     (if p = [] then [''Kh1'', ''Qf6'', ''Ra8#'', ''Qxf7+'']
      else if p = [''Kh1''] then [''Kf8'', ''h6'']
      else if p = [''Kf8'', ''Kh1''] then [''Qxf7#'']
      else if p = [''h6'', ''Kh1''] then [''Ra8#'']
      else if p = [''Qf6''] then [''h6'', ''gxf6'', ''Kh8'']
      else if p = [''Qxf7+''] then [''Kh8'']
      else if p = [''Kh8'', ''Qxf7+''] then [''Qf8#'', ''Kh1'']
      else [])"

definition demoObj :: "string \<Rightarrow> move_result" where
  "demoObj m =
     (if m = ''Qxf7+'' \<or> m = ''Qxf7#''
        then \<lparr>captured = Some Pawn, moved = Queen, promotion = None\<rparr>
      else if m = ''gxf6'' then \<lparr>captured = Some Queen, moved = Pawn, promotion = None\<rparr>
      else if m = ''Qf6'' \<or> m = ''Qf8#'' then \<lparr>captured = None, moved = Queen, promotion = None\<rparr>
      else if m = ''Ra8#'' then \<lparr>captured = None, moved = Rook, promotion = None\<rparr>
      else if m = ''h6'' then \<lparr>captured = None, moved = Pawn, promotion = None\<rparr>
      else \<lparr>captured = None, moved = King, promotion = None\<rparr>)"

definition demoMate :: "string list \<Rightarrow> bool" where
  "demoMate p = (case p of [] \<Rightarrow> False | m # _ \<Rightarrow> m = ''Ra8#'' \<or> m = ''Qxf7#'' \<or> m = ''Qf8#'')"

definition demo :: "(string list, string) chess" where
  "demo =
     \<lparr>initial = [],
      moves = demoMoves,
      move = (\<lambda>p m. m # p),
      moveObj = (\<lambda>p m. demoObj m),
      accepts = (\<lambda>p m. m \<in> set (demoMoves p)),
      san = (\<lambda>p m. m),
      undo = tl,
      turn = (\<lambda>p. if even (length p) then White else Black),
      isCheck = (\<lambda>p. case p of [] \<Rightarrow> False | m # _ \<Rightarrow> m = ''Qxf7+'' \<or> demoMate p),
      isCheckmate = demoMate,
      isDraw = (\<lambda>p. demoMoves p = [] \<and> \<not> demoMate p),
      isGameOver = (\<lambda>p. demoMoves p = []),
      board = (\<lambda>p row col. map_of (foldr demoPlay p demoStart) (row, col)),
      ascii = (\<lambda>p. join (rev p))\<rparr>"

text \<open>
  The same engine when the mating move Ra8 is also the hundredth half-move without a
  capture or a pawn move: chess.js then reports the position both as checkmate and, by
  the fifty-move rule, as a draw.
\<close>

definition demoFifty :: "(string list, string) chess" where
  "demoFifty = demo\<lparr>isDraw := (\<lambda>p. p = [''Ra8#''] \<or> isDraw demo p)\<rparr>"

section \<open>Scores, folds and the two loops\<close>

lemma score_simps [simp]:
  "NegInf \<le> x" "x \<le> PosInf" "\<not> PosInf \<le> Num a" "\<not> Num a \<le> NegInf"
  by (cases x; simp)+

lemma score_extreme [simp]:
  "(x \<le> NegInf) = (x = NegInf)" "(PosInf \<le> x) = (x = PosInf)"
  "max x NegInf = x" "max NegInf x = x" "min x PosInf = x" "min PosInf x = x"
  by (cases x; simp add: max_def min_def)+

lemma score_less_simps [simp]:
  "(Num a < Num b) = (a < b)" "NegInf < Num a" "Num a < PosInf" "NegInf < PosInf"
  "\<not> x < NegInf" "\<not> PosInf < x"
  by (auto simp: less_score_def)

lemma minimax_is_Via: "minimax fuel E = minimaxVia (rankMoves E) fuel E"
proof (induction fuel)
  case 0
  show ?case by (intro ext) simp
next
  case (Suc fuel)
  show ?case
    by (intro ext) (simp add: Suc rankMoves_def Let_def cong: if_cong)
qed

lemma step_continue:
  fixes v :: "'a::linorder"
  assumes "min v beta \<le> r" "r \<le> max v alpha" "alpha = max alpha0 best" "\<not> beta \<le> max alpha r"
    "min (max (max best r) M) beta \<le> R" "R \<le> max (max (max best r) M) alpha0"
  shows "min (max (max v best) M) beta \<le> R \<and> R \<le> max (max (max v best) M) alpha0"
  using assms by (auto simp: min_def max_def split: if_splits)

lemma step_cut:
  fixes v :: "'a::linorder"
  assumes "min v beta \<le> r" "r \<le> max v alpha" "alpha = max alpha0 best" "alpha < beta" "beta \<le> max alpha r"
  shows "min (max (max v best) M) beta \<le> max best r \<and> max best r \<le> max (max (max v best) M) alpha0"
  using assms by (auto simp: min_def max_def split: if_splits)

lemma step_continue_min:
  fixes v :: "'a::linorder"
  assumes "min v beta \<le> r" "r \<le> max v alpha" "beta = min beta0 best" "\<not> min beta r \<le> alpha"
    "min (min (min best r) M) beta0 \<le> R" "R \<le> max (min (min best r) M) alpha"
  shows "min (min (min v best) M) beta0 \<le> R \<and> R \<le> max (min (min v best) M) alpha"
  using assms by (auto simp: min_def max_def split: if_splits)

lemma step_cut_min:
  fixes v :: "'a::linorder"
  assumes "min v beta \<le> r" "r \<le> max v alpha" "beta = min beta0 best" "alpha < beta" "min beta r \<le> alpha"
  shows "min (min (min v best) M) beta0 \<le> min best r \<and> min best r \<le> max (min (min v best) M) alpha"
  using assms by (auto simp: min_def max_def split: if_splits)

lemma fold_max_acc: "fold max vs (b::score) = max b (fold max vs NegInf)"
proof (induction vs arbitrary: b)
  case Nil
  show ?case by (simp add: max_def)
next
  case (Cons v vs)
  have "fold max (v # vs) b = max (max v b) (fold max vs NegInf)"
    using Cons [of "max v b"] by simp
  also have "\<dots> = max b (max v (fold max vs NegInf))"
    by (simp add: max.assoc max.commute max.left_commute)
  also have "max v (fold max vs NegInf) = fold max (v # vs) NegInf"
    using Cons [of "max v NegInf"] by simp
  finally show ?case .
qed

lemma fold_min_acc: "fold min vs (b::score) = min b (fold min vs PosInf)"
proof (induction vs arbitrary: b)
  case Nil
  show ?case by (simp add: min_def)
next
  case (Cons v vs)
  have "fold min (v # vs) b = min (min v b) (fold min vs PosInf)"
    using Cons [of "min v b"] by simp
  also have "\<dots> = min b (min v (fold min vs PosInf))"
    by (simp add: min.assoc min.commute min.left_commute)
  also have "min v (fold min vs PosInf) = fold min (v # vs) PosInf"
    using Cons [of "min v PosInf"] by simp
  finally show ?case .
qed

lemma loopMax_within:
  assumes U: "undoReverts E"
    and C: "\<And>m a b. a < b \<Longrightarrow>
              \<exists>r. child (move E p m) a b = Some (r, move E p m) \<and> within a b (v (move E p m)) r"
  shows "alpha = max alpha0 best \<Longrightarrow> alpha < beta \<Longrightarrow>
         \<exists>R. loopMax child E ms p alpha beta best = Some (R, p) \<and>
             within alpha0 beta (fold max (map (\<lambda>m. v (move E p m)) ms) best) R"
proof (induction ms arbitrary: alpha best)
  case Nil
  then show ?case by (simp add: within_def)
next
  case (Cons m ms)
  let ?M = "fold max (map (\<lambda>m. v (move E p m)) ms) NegInf"
  let ?v = "v (move E p m)"
  from C [OF Cons.prems(2)] obtain r where
    r: "child (move E p m) alpha beta = Some (r, move E p m)"
      and w: "min ?v beta \<le> r" "r \<le> max ?v alpha"
    unfolding within_def by blast
  have undone: "undo E (move E p m) = p"
    using U by (simp add: undoReverts_def)
  have T: "fold max (map (\<lambda>m. v (move E p m)) (m # ms)) best = max (max ?v best) ?M"
    using fold_max_acc [of _ "max ?v best"] by simp
  show ?case
  proof (cases "beta \<le> max alpha r")
    case True
    have "loopMax child E (m # ms) p alpha beta best = Some (max best r, p)"
      using r True undone by simp
    moreover have "within alpha0 beta (max (max ?v best) ?M) (max best r)"
      unfolding within_def
      using step_cut [OF w Cons.prems(1) Cons.prems(2) True] by simp
    ultimately show ?thesis using T by simp
  next
    case False
    have a': "max alpha r = max alpha0 (max best r)"
      using Cons.prems(1) by (simp add: max.assoc)
    have lt: "max alpha r < beta"
      using False by (simp only: not_le)
    from Cons.IH [OF a' lt] obtain R where
      R: "loopMax child E ms p (max alpha r) beta (max best r) = Some (R, p)"
        and wR: "within alpha0 beta (fold max (map (\<lambda>m. v (move E p m)) ms) (max best r)) R"
      by blast
    have wR': "min (max (max best r) ?M) beta \<le> R" "R \<le> max (max (max best r) ?M) alpha0"
      using wR fold_max_acc [of _ "max best r"] by (simp_all add: within_def)
    have "loopMax child E (m # ms) p alpha beta best = Some (R, p)"
      using r False undone R by simp
    moreover have "within alpha0 beta (max (max ?v best) ?M) R"
      unfolding within_def
      using step_continue [OF w Cons.prems(1) False wR'] by simp
    ultimately show ?thesis using T by simp
  qed
qed

lemma loopMin_within:
  assumes U: "undoReverts E"
    and C: "\<And>m a b. a < b \<Longrightarrow>
              \<exists>r. child (move E p m) a b = Some (r, move E p m) \<and> within a b (v (move E p m)) r"
  shows "beta = min beta0 best \<Longrightarrow> alpha < beta \<Longrightarrow>
         \<exists>R. loopMin child E ms p alpha beta best = Some (R, p) \<and>
             within alpha beta0 (fold min (map (\<lambda>m. v (move E p m)) ms) best) R"
proof (induction ms arbitrary: beta best)
  case Nil
  then show ?case by (simp add: within_def)
next
  case (Cons m ms)
  let ?M = "fold min (map (\<lambda>m. v (move E p m)) ms) PosInf"
  let ?v = "v (move E p m)"
  from C [OF Cons.prems(2)] obtain r where
    r: "child (move E p m) alpha beta = Some (r, move E p m)"
      and w: "min ?v beta \<le> r" "r \<le> max ?v alpha"
    unfolding within_def by blast
  have undone: "undo E (move E p m) = p"
    using U by (simp add: undoReverts_def)
  have T: "fold min (map (\<lambda>m. v (move E p m)) (m # ms)) best = min (min ?v best) ?M"
    using fold_min_acc [of _ "min ?v best"] by simp
  show ?case
  proof (cases "min beta r \<le> alpha")
    case True
    have "loopMin child E (m # ms) p alpha beta best = Some (min best r, p)"
      using r True undone by simp
    moreover have "within alpha beta0 (min (min ?v best) ?M) (min best r)"
      unfolding within_def
      using step_cut_min [OF w Cons.prems(1) Cons.prems(2) True] by simp
    ultimately show ?thesis using T by simp
  next
    case False
    have b': "min beta r = min beta0 (min best r)"
      using Cons.prems(1) by (simp add: min.assoc)
    have lt: "alpha < min beta r"
      using False by (simp only: not_le)
    from Cons.IH [OF b' lt] obtain R where
      R: "loopMin child E ms p alpha (min beta r) (min best r) = Some (R, p)"
        and wR: "within alpha beta0 (fold min (map (\<lambda>m. v (move E p m)) ms) (min best r)) R"
      by blast
    have wR': "min (min (min best r) ?M) beta0 \<le> R" "R \<le> max (min (min best r) ?M) alpha"
      using wR fold_min_acc [of _ "min best r"] by (simp_all add: within_def)
    have "loopMin child E (m # ms) p alpha beta best = Some (R, p)"
      using r False undone R by simp
    moreover have "within alpha beta0 (min (min ?v best) ?M) R"
      unfolding within_def
      using step_continue_min [OF w Cons.prems(1) False wR'] by simp
    ultimately show ?thesis using T by simp
  qed
qed

lemma fold_max_perm:
  fixes xs :: "score list"
  assumes "mset xs = mset ys"
  shows "fold max xs b = fold max ys b"
proof -
  have "fold max xs = fold max ys"
    by (rule fold_multiset_equiv [OF _ assms]) (simp add: fun_eq_iff max.left_commute)
  then show ?thesis by simp
qed

lemma fold_min_perm:
  fixes xs :: "score list"
  assumes "mset xs = mset ys"
  shows "fold min xs b = fold min ys b"
proof -
  have "fold min xs = fold min ys"
    by (rule fold_multiset_equiv [OF _ assms]) (simp add: fun_eq_iff min.left_commute)
  then show ?thesis by simp
qed

lemma within_refl: "within a b v v"
  by (simp add: within_def)

lemma fullMinimax_leaf:
  "depth = 0 \<or> isGameOver E p \<Longrightarrow> fullMinimax E (nat depth) p mx = Num (evaluatePosition E p)"
  by (cases "nat depth") auto

lemma fullMinimax_node:
  assumes "0 < depth" "\<not> isGameOver E p"
  shows "fullMinimax E (nat depth) p mx =
         (if mx then fold max (map (\<lambda>m. fullMinimax E (nat (depth - 1)) (move E p m) False) (moves E p)) NegInf
          else fold min (map (\<lambda>m. fullMinimax E (nat (depth - 1)) (move E p m) True) (moves E p)) PosInf)"
proof -
  have "nat depth = Suc (nat (depth - 1))"
    using assms(1) by simp
  then show ?thesis
    using assms(2) by (simp add: Let_def)
qed

lemma minimaxVia_within:
  assumes U: "undoReverts E" and K: "keepsMoves rank"
  shows "0 \<le> depth \<Longrightarrow> depth < int fuel \<Longrightarrow> alpha < beta \<Longrightarrow>
         \<exists>r. minimaxVia rank fuel E p depth alpha beta mx = Some (r, p) \<and>
             within alpha beta (fullMinimax E (nat depth) p mx) r"
proof (induction fuel arbitrary: p depth alpha beta mx)
  case 0
  then show ?case by simp
next
  case (Suc fuel)
  show ?case
  proof (cases "depth = 0 \<or> isGameOver E p")
    case True
    then show ?thesis
      using fullMinimax_leaf [OF True] by (simp add: within_refl)
  next
    case False
    then have pos: "0 < depth" and live: "\<not> isGameOver E p"
      using Suc.prems(1) by auto
    obtain ord where ord: "rank p (moves E p) = (ord, p)" and perm: "mset ord = mset (moves E p)"
      using K unfolding keepsMoves_def by (metis prod.collapse)
    have child: "\<exists>r. minimaxVia rank fuel E (move E p m) (depth - 1) a b f = Some (r, move E p m) \<and>
                     within a b (fullMinimax E (nat (depth - 1)) (move E p m) f) r"
      if "a < b" for m a b f
      using Suc.IH [of "depth - 1" a b "move E p m" f] pos Suc.prems(2) that by simp
    show ?thesis
    proof (cases mx)
      case True
      let ?f = "\<lambda>m. fullMinimax E (nat (depth - 1)) (move E p m) False"
      have "\<exists>R. loopMax (\<lambda>q a b. minimaxVia rank fuel E q (depth - 1) a b False) E ord p alpha beta NegInf
                  = Some (R, p) \<and>
                within alpha beta (fold max (map (\<lambda>m. (\<lambda>q. fullMinimax E (nat (depth - 1)) q False) (move E p m)) ord) NegInf) R"
        by (rule loopMax_within [OF U]) (use child Suc.prems(3) in auto)
      moreover have "fold max (map ?f ord) NegInf = fold max (map ?f (moves E p)) NegInf"
        by (rule fold_max_perm) (simp add: perm)
      ultimately show ?thesis
        using False True ord fullMinimax_node [OF pos live, of mx] by (simp add: Let_def)
    next
      case mn: False
      let ?f = "\<lambda>m. fullMinimax E (nat (depth - 1)) (move E p m) True"
      have "\<exists>R. loopMin (\<lambda>q a b. minimaxVia rank fuel E q (depth - 1) a b True) E ord p alpha beta PosInf
                  = Some (R, p) \<and>
                within alpha beta (fold min (map (\<lambda>m. (\<lambda>q. fullMinimax E (nat (depth - 1)) q True) (move E p m)) ord) PosInf) R"
        by (rule loopMin_within [OF U]) (use child Suc.prems(3) in auto)
      moreover have "fold min (map ?f ord) PosInf = fold min (map ?f (moves E p)) PosInf"
        by (rule fold_min_perm) (simp add: perm)
      ultimately show ?thesis
        using False mn ord fullMinimax_node [OF pos live, of mx] by (simp add: Let_def)
    qed
  qed
qed

lemma within_full: "within NegInf PosInf v r \<Longrightarrow> r = v"
  by (auto simp: within_def)

lemma scoreMove_fst: "fst (fst (scoreMove E p m)) = m"
  by (simp add: scoreMove_def Let_def)

lemma scoreMove_snd: "snd (scoreMove E p m) = undo E (move E p m)"
  by (simp add: scoreMove_def Let_def)

lemma scoreMoves_moves: "map fst (fst (scoreMoves E p ms)) = ms"
  by (induction ms arbitrary: p) (simp_all add: Let_def split_beta scoreMove_fst)

lemma scoreMoves_state:
  assumes "undoReverts E"
  shows "snd (scoreMoves E p ms) = p"
  using assms by (induction ms arbitrary: p) (simp_all add: Let_def split_beta scoreMove_snd undoReverts_def)

lemma orderMoves_mset: "mset (fst (orderMoves E p ms)) = mset ms"
proof -
  have "mset (map fst (sort_key (\<lambda>s. - snd s) (fst (scoreMoves E p ms))))
        = mset (map fst (fst (scoreMoves E p ms)))"
    by simp
  then show ?thesis
    by (simp add: orderMoves_def split_beta Let_def scoreMoves_moves)
qed

lemma orderMoves_state:
  assumes "undoReverts E"
  shows "snd (orderMoves E p ms) = p"
  using scoreMoves_state [OF assms] by (simp add: orderMoves_def split_beta Let_def)

lemma rankMoves_keeps: "undoReverts E \<Longrightarrow> keepsMoves (rankMoves E)"
  by (simp add: keepsMoves_def rankMoves_def orderMoves_mset orderMoves_state)


section \<open>Pruning and the unpruned value\<close>

lemma demo_undo: "undoReverts demo"
  by (simp add: undoReverts_def demo_def)

text \<open>
  C1, as the specification states it, fails: with a window narrower than the full one,
  \<open>minimax\<close> stops at the first reply that falls to the lower limit. In the sample
  engine, after Kh1, the reply Kf8 is worth 1422 and the reply h6 is worth 1402; with
  the lower limit 1534 the search of depth 1 returns 1422 after the first reply, and the
  unpruned value of the position is 1402.
\<close>

theorem minimax_window_counterexample:
  "minimax 2 demo [''Kh1''] 1 (Num 1534) PosInf False = Some (Num 1422, [''Kh1'']) \<and>
   fullMinimax demo 1 [''Kh1''] False = Num 1402"
  by code_simp

text \<open>
  C1, amended: when each undo reverts the latest move, a call of \<open>minimax\<close> with a
  depth of at least 0 and the full window from \<open>-Infinity\<close> to \<open>Infinity\<close>, the
  window \<open>getBestMove\<close> passes, returns exactly the unpruned minimax value of the
  tree of that depth. With a narrower window \<open>alpha < beta\<close> it returns a result
  \<open>r\<close> that equals the unpruned value \<open>v\<close> when it lies strictly between
  \<open>alpha\<close> and \<open>beta\<close>, and is a bound otherwise: \<open>v \<le> r\<close> when
  \<open>r \<le> alpha\<close>, and \<open>r \<le> v\<close> when \<open>beta \<le> r\<close>.
\<close>

theorem minimax_full_window_exact:
  assumes "undoReverts E" and "0 \<le> depth" and "depth < int fuel"
  shows "minimax fuel E p depth NegInf PosInf mx = Some (fullMinimax E (nat depth) p mx, p) \<and>
         (\<forall>alpha beta. alpha < beta \<longrightarrow>
            (\<exists>r. minimax fuel E p depth alpha beta mx = Some (r, p) \<and>
                 (r \<le> alpha \<longrightarrow> fullMinimax E (nat depth) p mx \<le> r) \<and>
                 (alpha < r \<and> r < beta \<longrightarrow> r = fullMinimax E (nat depth) p mx) \<and>
                 (beta \<le> r \<longrightarrow> r \<le> fullMinimax E (nat depth) p mx)))"
proof -
  have K: "keepsMoves (rankMoves E)"
    using assms(1) by (rule rankMoves_keeps)
  have W: "\<exists>r. minimax fuel E p depth alpha beta mx = Some (r, p) \<and>
               within alpha beta (fullMinimax E (nat depth) p mx) r"
    if "alpha < beta" for alpha beta
    using minimaxVia_within [OF assms(1) K assms(2) assms(3) that, of p mx]
    by (simp add: minimax_is_Via)
  have "NegInf < PosInf" by simp
  from W [OF this] have full: "minimax fuel E p depth NegInf PosInf mx
                                = Some (fullMinimax E (nat depth) p mx, p)"
    by (auto dest: within_full)
  have "\<exists>r. minimax fuel E p depth alpha beta mx = Some (r, p) \<and>
            (r \<le> alpha \<longrightarrow> fullMinimax E (nat depth) p mx \<le> r) \<and>
            (alpha < r \<and> r < beta \<longrightarrow> r = fullMinimax E (nat depth) p mx) \<and>
            (beta \<le> r \<longrightarrow> r \<le> fullMinimax E (nat depth) p mx)"
    if lt: "alpha < beta" for alpha beta
  proof -
    from W [OF lt] obtain r where
      r: "minimax fuel E p depth alpha beta mx = Some (r, p)"
      and w: "within alpha beta (fullMinimax E (nat depth) p mx) r"
      by blast
    from w lt have "(r \<le> alpha \<longrightarrow> fullMinimax E (nat depth) p mx \<le> r) \<and>
            (alpha < r \<and> r < beta \<longrightarrow> r = fullMinimax E (nat depth) p mx) \<and>
            (beta \<le> r \<longrightarrow> r \<le> fullMinimax E (nat depth) p mx)"
      by (auto simp: within_def min_def max_def split: if_splits)
    with r show ?thesis by blast
  qed
  with full show ?thesis by blast
qed

theorem minimax_full_window_exact_witness:
  "undoReverts demo \<and> (0::int) \<le> 3 \<and> (3::int) < int 4 \<and>
   minimax 4 demo [] 3 NegInf PosInf True = Some (fullMinimax demo (nat 3) [] True, []) \<and>
   fullMinimax demo (nat 3) [] True = Num 99999 \<and>
   (\<exists>r. minimax 4 demo [] 3 (Num 1534) PosInf True = Some (r, []) \<and>
        Num 1534 < r \<and> r < PosInf \<and> r = fullMinimax demo (nat 3) [] True)"
proof -
  have h1: "undoReverts demo" by (rule demo_undo)
  have h2: "(0::int) \<le> 3" by simp
  have h3: "(3::int) < int 4" by simp
  have v: "fullMinimax demo (nat 3) [] True = Num 99999" by code_simp
  note T = minimax_full_window_exact [OF h1 h2 h3, of "[]" True]
  from T have a: "minimax 4 demo [] 3 NegInf PosInf True
                   = Some (fullMinimax demo (nat 3) [] True, [])"
    by (rule conjunct1)
  have lt: "Num 1534 < PosInf" by simp
  from T lt obtain r where
    r: "minimax 4 demo [] 3 (Num 1534) PosInf True = Some (r, [])"
    and b: "r \<le> Num 1534 \<longrightarrow> fullMinimax demo (nat 3) [] True \<le> r"
           "Num 1534 < r \<and> r < PosInf \<longrightarrow> r = fullMinimax demo (nat 3) [] True"
    by blast
  from b(1) v have "Num 1534 < r"
    by (cases r) auto
  moreover from r have "r < PosInf"
    using b(1) v by (cases r) (auto, code_simp)
  ultimately have "Num 1534 < r \<and> r < PosInf \<and> r = fullMinimax demo (nat 3) [] True"
    using b(2) by blast
  with h1 h2 h3 a v r show ?thesis
    by blast
qed

section \<open>The position after a search\<close>

lemma loopMax_frame:
  assumes U: "undoReverts E"
    and C: "\<And>q a b r q'. child q a b = Some (r, q') \<Longrightarrow> q' = q"
  shows "loopMax child E ms p alpha beta best = Some (R, p') \<Longrightarrow> p' = p"
proof (induction ms arbitrary: alpha best)
  case Nil
  then show ?case by simp
next
  case (Cons m ms)
  from Cons.prems obtain r q where
    r: "child (move E p m) alpha beta = Some (r, q)"
    by (auto split: option.splits)
  with C have q: "q = move E p m" by blast
  have undone: "undo E q = p"
    using U q by (simp add: undoReverts_def)
  show ?case
  proof (cases "beta \<le> max alpha r")
    case True
    with Cons.prems r undone show ?thesis by simp
  next
    case False
    with Cons.prems r undone
    have "loopMax child E ms p (max alpha r) beta (max best r) = Some (R, p')"
      by simp
    then show ?thesis by (rule Cons.IH)
  qed
qed

lemma loopMin_frame:
  assumes U: "undoReverts E"
    and C: "\<And>q a b r q'. child q a b = Some (r, q') \<Longrightarrow> q' = q"
  shows "loopMin child E ms p alpha beta best = Some (R, p') \<Longrightarrow> p' = p"
proof (induction ms arbitrary: beta best)
  case Nil
  then show ?case by simp
next
  case (Cons m ms)
  from Cons.prems obtain r q where
    r: "child (move E p m) alpha beta = Some (r, q)"
    by (auto split: option.splits)
  with C have q: "q = move E p m" by blast
  have undone: "undo E q = p"
    using U q by (simp add: undoReverts_def)
  show ?case
  proof (cases "min beta r \<le> alpha")
    case True
    with Cons.prems r undone show ?thesis by simp
  next
    case False
    with Cons.prems r undone
    have "loopMin child E ms p alpha (min beta r) (min best r) = Some (R, p')"
      by simp
    then show ?thesis by (rule Cons.IH)
  qed
qed

lemma loopBest_frame:
  assumes U: "undoReverts E"
    and C: "\<And>q r q'. child q = Some (r, q') \<Longrightarrow> q' = q"
  shows "loopBest child E ms p mx bm bs = Some (R, p') \<Longrightarrow> p' = p"
proof (induction ms arbitrary: bm bs)
  case Nil
  then show ?case by simp
next
  case (Cons m ms)
  from Cons.prems obtain r q where
    r: "child (move E p m) = Some (r, q)"
    by (auto split: option.splits)
  with C have q: "q = move E p m" by blast
  have undone: "undo E q = p"
    using U q by (simp add: undoReverts_def)
  from Cons.prems r undone
  have "\<exists>bm' bs'. loopBest child E ms p mx bm' bs' = Some (R, p')"
    by (auto split: if_splits)
  then show ?case using Cons.IH by blast
qed

lemma loopMax_returns:
  assumes "\<And>q a b. child q a b \<noteq> None"
  shows "loopMax child E ms p alpha beta best \<noteq> None"
proof (induction ms arbitrary: p alpha best)
  case Nil
  show ?case by simp
next
  case (Cons m ms)
  from assms obtain r q where "child (move E p m) alpha beta = Some (r, q)"
    by (metis not_None_eq surj_pair)
  with Cons show ?case by (simp add: Let_def)
qed

lemma loopMin_returns:
  assumes "\<And>q a b. child q a b \<noteq> None"
  shows "loopMin child E ms p alpha beta best \<noteq> None"
proof (induction ms arbitrary: p beta best)
  case Nil
  show ?case by simp
next
  case (Cons m ms)
  from assms obtain r q where "child (move E p m) alpha beta = Some (r, q)"
    by (metis not_None_eq surj_pair)
  with Cons show ?case by (simp add: Let_def)
qed

lemma loopBest_returns:
  assumes "\<And>q. child q \<noteq> None"
  shows "loopBest child E ms p mx bm bs \<noteq> None"
proof (induction ms arbitrary: p bm bs)
  case Nil
  show ?case by simp
next
  case (Cons m ms)
  from assms obtain r q where "child (move E p m) = Some (r, q)"
    by (metis not_None_eq surj_pair)
  with Cons show ?case by (auto simp: Let_def)
qed

lemma minimaxVia_frame:
  assumes U: "undoReverts E" and K: "keepsMoves rank"
  shows "minimaxVia rank fuel E p depth alpha beta mx = Some (r, q) \<Longrightarrow> q = p"
proof (induction fuel arbitrary: p depth alpha beta mx r q)
  case 0
  then show ?case by simp
next
  case (Suc fuel)
  show ?case
  proof (cases "depth = 0 \<or> isGameOver E p")
    case True
    with Suc.prems show ?thesis by auto
  next
    case False
    obtain ord where ord: "rank p (moves E p) = (ord, p)"
      using K unfolding keepsMoves_def by (metis prod.collapse)
    show ?thesis
    proof (cases mx)
      case True
      with Suc.prems False ord
      have "loopMax (\<lambda>q a b. minimaxVia rank fuel E q (depth - 1) a b False)
              E ord p alpha beta NegInf = Some (r, q)"
        by (simp add: Let_def)
      then show ?thesis
        by (rule loopMax_frame [OF U, rotated]) (rule Suc.IH)
    next
      case mn: False
      with Suc.prems False ord
      have "loopMin (\<lambda>q a b. minimaxVia rank fuel E q (depth - 1) a b True)
              E ord p alpha beta PosInf = Some (r, q)"
        by (simp add: Let_def)
      then show ?thesis
        by (rule loopMin_frame [OF U, rotated]) (rule Suc.IH)
    qed
  qed
qed

lemma minimaxVia_returns:
  "0 \<le> depth \<Longrightarrow> depth < int fuel \<Longrightarrow> minimaxVia rank fuel E p depth alpha beta mx \<noteq> None"
proof (induction fuel arbitrary: p depth alpha beta mx)
  case 0
  then show ?case by simp
next
  case (Suc fuel)
  show ?case
  proof (cases "depth = 0 \<or> isGameOver E p")
    case True
    then show ?thesis by auto
  next
    case False
    with Suc.prems have d: "0 \<le> depth - 1" "depth - 1 < int fuel"
      by auto
    have child: "minimaxVia rank fuel E q (depth - 1) a b f \<noteq> None" for q a b f
      using Suc.IH [OF d] .
    show ?thesis
      using False loopMax_returns [of "\<lambda>q a b. minimaxVia rank fuel E q (depth - 1) a b False", OF child]
        loopMin_returns [of "\<lambda>q a b. minimaxVia rank fuel E q (depth - 1) a b True", OF child]
      by (auto simp: Let_def split_beta)
  qed
qed

lemma minimax_frame:
  "undoReverts E \<Longrightarrow> minimax fuel E p depth alpha beta mx = Some (r, q) \<Longrightarrow> q = p"
  by (metis minimax_is_Via minimaxVia_frame rankMoves_keeps)

lemma minimax_returns:
  "0 \<le> depth \<Longrightarrow> depth < int fuel \<Longrightarrow> minimax fuel E p depth alpha beta mx \<noteq> None"
  by (simp add: minimax_is_Via minimaxVia_returns)

lemma getBestMove_frame:
  assumes U: "undoReverts E"
  shows "getBestMove fuel E p depth = Some (r, q) \<Longrightarrow> q = p"
proof (cases "moves E p = []")
  case True
  assume "getBestMove fuel E p depth = Some (r, q)"
  with True show ?thesis by (simp add: getBestMove_def)
next
  case False
  assume g: "getBestMove fuel E p depth = Some (r, q)"
  obtain ord where ord: "orderMoves E p (moves E p) = (ord, p)"
    using orderMoves_state [OF U, of p "moves E p"] by (metis prod.collapse)
  from g False ord
  have "\<exists>bm bs. loopBest (\<lambda>q. minimax fuel E q (depth - 1) NegInf PosInf (\<not> (turn E p = White)))
           E ord p (turn E p = White) bm bs = Some (r, q)"
    by (auto simp: getBestMove_def Let_def)
  then obtain bm bs where
    "loopBest (\<lambda>q. minimax fuel E q (depth - 1) NegInf PosInf (\<not> (turn E p = White)))
           E ord p (turn E p = White) bm bs = Some (r, q)"
    by blast
  then show ?thesis
    by (rule loopBest_frame [OF U, rotated]) (rule minimax_frame [OF U])
qed

lemma getBestMove_returns:
  assumes "1 \<le> depth" "depth \<le> int fuel"
  shows "getBestMove fuel E p depth \<noteq> None"
proof -
  have child: "minimax fuel E q (depth - 1) a b f \<noteq> None" for q a b f
    using assms by (intro minimax_returns) auto
  show ?thesis
    using loopBest_returns [of "\<lambda>q. minimax fuel E q (depth - 1) NegInf PosInf f" for f, OF child]
    by (auto simp: getBestMove_def Let_def split_beta)
qed

text \<open>
  C3: when each undo exactly reverts the latest move, \<open>orderMoves\<close>,
  \<open>minimax\<close> and \<open>getBestMove\<close> hand the position back as they received it,
  for every window and so on every path, the early exits of a cut-off included; and for
  a depth of at least 0 (at least 1 for \<open>getBestMove\<close>) and enough fuel the two
  searches do return.
\<close>

theorem search_restores_position:
  assumes "undoReverts E"
  shows "snd (orderMoves E p ms) = p \<and>
         (\<forall>r q. minimax fuel E p depth alpha beta mx = Some (r, q) \<longrightarrow> q = p) \<and>
         (\<forall>r q. getBestMove fuel E p depth = Some (r, q) \<longrightarrow> q = p) \<and>
         (0 \<le> depth \<and> depth < int fuel \<longrightarrow>
            (\<exists>r. minimax fuel E p depth alpha beta mx = Some (r, p))) \<and>
         (1 \<le> depth \<and> depth \<le> int fuel \<longrightarrow>
            (\<exists>r. getBestMove fuel E p depth = Some (r, p)))"
proof (intro conjI allI impI)
  show "snd (orderMoves E p ms) = p"
    using assms by (rule orderMoves_state)
next
  fix r q assume "minimax fuel E p depth alpha beta mx = Some (r, q)"
  with assms show "q = p" by (rule minimax_frame)
next
  fix r q assume "getBestMove fuel E p depth = Some (r, q)"
  with assms show "q = p" by (rule getBestMove_frame)
next
  assume "0 \<le> depth \<and> depth < int fuel"
  then have "minimax fuel E p depth alpha beta mx \<noteq> None"
    by (intro minimax_returns) auto
  then obtain r q where "minimax fuel E p depth alpha beta mx = Some (r, q)"
    by (metis not_None_eq surj_pair)
  with minimax_frame [OF assms this] show "\<exists>r. minimax fuel E p depth alpha beta mx = Some (r, p)"
    by blast
next
  assume "1 \<le> depth \<and> depth \<le> int fuel"
  then have "getBestMove fuel E p depth \<noteq> None"
    by (intro getBestMove_returns) auto
  then obtain r q where "getBestMove fuel E p depth = Some (r, q)"
    by (metis not_None_eq surj_pair)
  with getBestMove_frame [OF assms this] show "\<exists>r. getBestMove fuel E p depth = Some (r, p)"
    by blast
qed

theorem search_restores_position_witness:
  "snd (orderMoves demo [''Qf6''] [''h6'', ''gxf6'', ''Kh8'']) = [''Qf6''] \<and>
   minimax 4 demo [] 3 (Num 0) (Num 5000) True = Some (Num 99999, []) \<and>
   getBestMove 3 demo [] 3 = Some (Some ''Qxf7+'', [])"
proof -
  note T = search_restores_position [OF demo_undo, of "[]" "[]" 4 3 "Num 0" "Num 5000" True]
  have a: "snd (orderMoves demo [''Qf6''] [''h6'', ''gxf6'', ''Kh8'']) = [''Qf6'']"
    using search_restores_position [OF demo_undo, of "[''Qf6'']" "[''h6'', ''gxf6'', ''Kh8'']"]
    by blast
  from T obtain r where r: "minimax 4 demo [] 3 (Num 0) (Num 5000) True = Some (r, [])"
    by auto
  have "fst (the (minimax 4 demo [] 3 (Num 0) (Num 5000) True)) = Num 99999"
    by code_simp
  with r have b: "minimax 4 demo [] 3 (Num 0) (Num 5000) True = Some (Num 99999, [])"
    by simp
  from search_restores_position [OF demo_undo, of "[]" "[]" 3 3 NegInf PosInf True]
  obtain m where m: "getBestMove 3 demo [] 3 = Some (m, [])"
    by auto
  have "fst (the (getBestMove 3 demo [] 3)) = Some ''Qxf7+''"
    by code_simp
  with m have c: "getBestMove 3 demo [] 3 = Some (Some ''Qxf7+'', [])"
    by simp
  from a b c show ?thesis by blast
qed

section \<open>The order of the moves\<close>

text \<open>
  C4: for a fixed position and depth of at least 0, the search run with any ranking
  step that returns a permutation of the moves (the move orderer bypassed and the list
  permuted at will) returns, for the full window of the top-level call, the value that
  the search of the source returns; so any two orders give the same value. Undo is
  assumed to revert each move.
\<close>

theorem move_order_irrelevant:
  assumes "undoReverts E" and "keepsMoves rank1" and "keepsMoves rank2"
    and "0 \<le> depth" and "depth < int fuel"
  shows "minimaxVia rank1 fuel E p depth NegInf PosInf mx
           = minimaxVia rank2 fuel E p depth NegInf PosInf mx \<and>
         minimaxVia rank1 fuel E p depth NegInf PosInf mx
           = minimax fuel E p depth NegInf PosInf mx"
proof -
  have full: "minimaxVia rank fuel E p depth NegInf PosInf mx
                = Some (fullMinimax E (nat depth) p mx, p)"
    if "keepsMoves rank" for rank
  proof -
    have "NegInf < PosInf" by simp
    from minimaxVia_within [OF assms(1) that assms(4) assms(5) this, of p mx]
    show ?thesis by (auto dest: within_full)
  qed
  have "keepsMoves (rankMoves E)"
    using assms(1) by (rule rankMoves_keeps)
  with full [of rank1] full [of rank2] full [of "rankMoves E"] assms(2,3)
  show ?thesis by (simp add: minimax_is_Via)
qed

lemma keepsMoves_rev: "keepsMoves (\<lambda>p ms. (rev ms, p))"
  by (simp add: keepsMoves_def)

lemma keepsMoves_id: "keepsMoves (\<lambda>p ms. (ms, p))"
  by (simp add: keepsMoves_def)

theorem move_order_irrelevant_witness:
  "minimaxVia (\<lambda>p ms. (rev ms, p)) 4 demo [] 3 NegInf PosInf True
     = minimaxVia (\<lambda>p ms. (ms, p)) 4 demo [] 3 NegInf PosInf True \<and>
   minimaxVia (\<lambda>p ms. (rev ms, p)) 4 demo [] 3 NegInf PosInf True
     = minimax 4 demo [] 3 NegInf PosInf True \<and>
   minimax 4 demo [] 3 NegInf PosInf True = Some (Num 99999, [])"
proof -
  have h4: "(0::int) \<le> 3" by simp
  have h5: "(3::int) < int 4" by simp
  have "minimax 4 demo [] 3 NegInf PosInf True = Some (Num 99999, [])"
    by code_simp
  with move_order_irrelevant [OF demo_undo keepsMoves_rev keepsMoves_id h4 h5, of "[]" True]
  show ?thesis by auto
qed

section \<open>The move that getBestMove returns\<close>

lemma loopBest_member:
  "loopBest child E ms p mx bm bs = Some (r, q) \<Longrightarrow> r = bm \<or> (\<exists>m \<in> set ms. r = Some m)"
proof (induction ms arbitrary: p bm bs)
  case Nil
  then show ?case by simp
next
  case (Cons m ms)
  from Cons.prems obtain s p1 where
    s: "child (move E p m) = Some (s, p1)"
    by (auto split: option.splits)
  from Cons.prems s
  have "loopBest child E ms (undo E p1) mx (Some m) s = Some (r, q) \<or>
        loopBest child E ms (undo E p1) mx bm bs = Some (r, q)"
    by (auto simp: Let_def split: if_splits)
  then show ?case
    using Cons.IH by fastforce
qed

lemma getBestMove_none: "moves E p = [] \<Longrightarrow> getBestMove fuel E p depth = Some (None, p)"
  by (simp add: getBestMove_def)

lemma getBestMove_member:
  assumes "moves E p \<noteq> []" and "getBestMove fuel E p depth = Some (r, q)"
  shows "\<exists>m \<in> set (moves E p). r = Some m"
proof -
  let ?ord = "fst (orderMoves E p (moves E p))"
  have perm: "mset ?ord = mset (moves E p)"
    by (rule orderMoves_mset)
  then have same: "set ?ord = set (moves E p)"
    by (rule mset_eq_setD)
  from perm assms(1) have "?ord \<noteq> []"
    by auto
  then obtain m0 rest where ord: "?ord = m0 # rest"
    by (cases ?ord) auto
  from assms ord
  have "\<exists>p0 mx bs. loopBest (\<lambda>q. minimax fuel E q (depth - 1) NegInf PosInf (\<not> mx))
          E ?ord p0 mx (Some m0) bs = Some (r, q)"
    by (auto simp: getBestMove_def Let_def split_beta)
  then have "r = Some m0 \<or> (\<exists>m \<in> set ?ord. r = Some m)"
    using loopBest_member by fast
  with ord same show ?thesis
    by (metis list.set_intros(1))
qed

text \<open>
  C5: \<open>getBestMove\<close> returns \<open>null\<close> exactly when the position has no legal
  move. When there is one, whatever it returns is a move of the legal-move list, and
  for a depth of at least 1 (and fuel for that depth) it does return; so from the
  starting position, which has legal moves, the search of depth 2 returns a legal move.
\<close>

theorem getBestMove_null_iff_no_moves:
  "(moves E p = [] \<longrightarrow> getBestMove fuel E p depth = Some (None, p)) \<and>
   (moves E p \<noteq> [] \<longrightarrow>
      (\<forall>r q. getBestMove fuel E p depth = Some (r, q) \<longrightarrow> (\<exists>m \<in> set (moves E p). r = Some m)) \<and>
      (1 \<le> depth \<and> depth \<le> int fuel \<longrightarrow>
         (\<exists>m \<in> set (moves E p). \<exists>q. getBestMove fuel E p depth = Some (Some m, q)))) \<and>
   (moves E (initial E) \<noteq> [] \<longrightarrow>
      (\<exists>m \<in> set (moves E (initial E)). \<exists>q. getBestMove 2 E (initial E) 2 = Some (Some m, q)))"
proof -
  have ret: "\<exists>m \<in> set (moves E p'). \<exists>q. getBestMove f E p' d = Some (Some m, q)"
    if "moves E p' \<noteq> []" "1 \<le> d" "d \<le> int f" for p' d f
  proof -
    from that(2,3) have "getBestMove f E p' d \<noteq> None"
      by (rule getBestMove_returns)
    then obtain r q where g: "getBestMove f E p' d = Some (r, q)"
      by (metis not_None_eq surj_pair)
    from getBestMove_member [OF that(1) g] g show ?thesis
      by blast
  qed
  have "\<exists>m \<in> set (moves E (initial E)). \<exists>q. getBestMove 2 E (initial E) 2 = Some (Some m, q)"
    if "moves E (initial E) \<noteq> []"
    using ret [OF that, of 2 2] by simp
  then show ?thesis
    using getBestMove_none [of E p fuel depth] getBestMove_member [of E p fuel depth] ret [of p depth fuel]
    by blast
qed

theorem getBestMove_null_iff_no_moves_witness:
  "moves demo [''Ra8#''] = [] \<and> getBestMove 2 demo [''Ra8#''] 2 = Some (None, [''Ra8#'']) \<and>
   moves demo [] = [''Kh1'', ''Qf6'', ''Ra8#'', ''Qxf7+''] \<and> (1::int) \<le> 2 \<and> (2::int) \<le> int 2 \<and>
   getBestMove 2 demo [] 2 = Some (Some ''Ra8#'', []) \<and> initial demo = []"
proof -
  have e: "moves demo [''Ra8#''] = []" by code_simp
  have n: "moves demo [] = [''Kh1'', ''Qf6'', ''Ra8#'', ''Qxf7+'']" by code_simp
  have i: "initial demo = []" by (simp add: demo_def)
  have d: "(1::int) \<le> 2 \<and> (2::int) \<le> int 2" by simp
  from getBestMove_null_iff_no_moves [of demo "[''Ra8#'']" 2 2] e
  have a: "getBestMove 2 demo [''Ra8#''] 2 = Some (None, [''Ra8#''])"
    by blast
  from getBestMove_null_iff_no_moves [of demo "[]" 2 2] n d
  obtain m q where "getBestMove 2 demo [] 2 = Some (Some m, q)"
    by auto
  moreover have "getBestMove 2 demo [] 2 = Some (Some ''Ra8#'', [])"
    by code_simp
  ultimately have b: "getBestMove 2 demo [] 2 = Some (Some ''Ra8#'', [])"
    by simp
  from e a n d b i show ?thesis by blast
qed

section \<open>Terminal positions\<close>

text \<open>
  C2, as stated, fails for a position that the engine reports both as checkmate and as
  a draw (a mate delivered by the hundredth half-move of the fifty-move count): the
  checkmate test comes first and the result is the mate value, not 0.
\<close>

theorem evaluatePosition_draw_counterexample:
  "isDraw demoFifty [''Ra8#''] \<and> evaluatePosition demoFifty [''Ra8#''] = 99999"
  by code_simp

text \<open>
  C2, amended: for every position classified checkmate \<open>evaluatePosition\<close> returns
  -99999 when White is to move and 99999 when Black is to move, whether or not the
  position also counts as a draw; for every recognized draw that is not checkmate
  (stalemate is one of the draws \<open>isDraw\<close> reports) it returns exactly 0. In both
  cases the result is fixed before the board and the moves are looked at.
\<close>

theorem evaluatePosition_terminal:
  "(isCheckmate E p \<longrightarrow> evaluatePosition E p = (if turn E p = White then - 99999 else 99999)) \<and>
   (\<not> isCheckmate E p \<and> isDraw E p \<longrightarrow> evaluatePosition E p = 0) \<and>
   (isCheckmate E p \<or> isDraw E p \<longrightarrow>
      evaluatePosition (E\<lparr>moves := mv, board := bd\<rparr>) p = evaluatePosition E p)"
  by (simp add: evaluatePosition_def)

theorem evaluatePosition_terminal_witness:
  "isCheckmate demo [''Ra8#''] \<and> turn demo [''Ra8#''] = Black \<and>
   evaluatePosition demo [''Ra8#''] = 99999 \<and>
   \<not> isCheckmate demo [''h6'', ''Qf6''] \<and> isDraw demo [''h6'', ''Qf6''] \<and>
   evaluatePosition demo [''h6'', ''Qf6''] = 0 \<and>
   evaluatePosition (demo\<lparr>moves := (\<lambda>p. []), board := (\<lambda>p row col. None)\<rparr>) [''Ra8#'']
     = evaluatePosition demo [''Ra8#'']"
proof -
  have m: "isCheckmate demo [''Ra8#'']" by code_simp
  have t: "turn demo [''Ra8#''] = Black" by code_simp
  have d: "\<not> isCheckmate demo [''h6'', ''Qf6''] \<and> isDraw demo [''h6'', ''Qf6'']" by code_simp
  from evaluatePosition_terminal [where E = demo and p = "[''Ra8#'']" and mv = "\<lambda>p. []"
         and bd = "\<lambda>p row col. None"] m t
  have a: "evaluatePosition demo [''Ra8#''] = 99999"
    "evaluatePosition (demo\<lparr>moves := (\<lambda>p. []), board := (\<lambda>p row col. None)\<rparr>) [''Ra8#'']
       = evaluatePosition demo [''Ra8#'']"
    by simp_all
  from evaluatePosition_terminal [of demo "[''h6'', ''Qf6'']"] d
  have b: "evaluatePosition demo [''h6'', ''Qf6''] = 0"
    by blast
  from m t a d b show ?thesis by blast
qed

section \<open>The ranking of the moves\<close>

lemma scoreMove_eq:
  assumes "undoReverts E"
  shows "scoreMove E p m = ((m, moveScore E p m), p)"
proof -
  have "snd (scoreMove E p m) = p"
    using assms by (simp add: scoreMove_snd undoReverts_def)
  moreover have "fst (fst (scoreMove E p m)) = m"
    by (rule scoreMove_fst)
  moreover have "snd (fst (scoreMove E p m)) = moveScore E p m"
    by (simp only: moveScore_def)
  ultimately show ?thesis
    by (metis prod.collapse)
qed

lemma scoreMoves_eq:
  assumes "undoReverts E"
  shows "scoreMoves E p ms = (map (\<lambda>m. (m, moveScore E p m)) ms, p)"
  by (induction ms) (simp_all add: scoreMove_eq [OF assms])

lemma orderMoves_eq:
  assumes "undoReverts E"
  shows "fst (orderMoves E p ms)
          = map fst (sort_key (\<lambda>s. - snd s) (map (\<lambda>m. (m, moveScore E p m)) ms))"
  by (simp add: orderMoves_def scoreMoves_eq [OF assms])

lemma orderMoves_sorted:
  assumes "undoReverts E"
  shows "sorted_wrt (\<lambda>a b. moveScore E p b \<le> moveScore E p a) (fst (orderMoves E p ms))"
proof -
  let ?scored = "map (\<lambda>m. (m, moveScore E p m)) ms"
  let ?ranked = "sort_key (\<lambda>s. - snd s) ?scored"
  have "sorted (map (\<lambda>s. - snd s) ?ranked)"
    by (rule sorted_sort_key)
  then have srt: "sorted_wrt (\<lambda>x y. - snd x \<le> - snd y) ?ranked"
    by (simp add: sorted_wrt_map)
  have eq: "snd s = moveScore E p (fst s)" if "s \<in> set ?ranked" for s
    using that by auto
  have "sorted_wrt (\<lambda>x y. moveScore E p (fst y) \<le> moveScore E p (fst x)) ?ranked"
  proof (rule sorted_wrt_mono_rel [OF _ srt])
    fix x y
    assume "x \<in> set ?ranked" "y \<in> set ?ranked" "- snd x \<le> - snd y"
    then show "moveScore E p (fst y) \<le> moveScore E p (fst x)"
      using eq [of x] eq [of y] by simp
  qed
  then show ?thesis
    by (simp add: orderMoves_eq [OF assms] sorted_wrt_map)
qed

lemma moveScore_formula:
  "moveScore E p m =
     (case captured (moveObj E p m) of
        None \<Rightarrow> 0
      | Some c \<Rightarrow> 10 * PIECE_VALUES c - PIECE_VALUES (moved (moveObj E p m)))
     + (case promotion (moveObj E p m) of None \<Rightarrow> 0 | Some pr \<Rightarrow> PIECE_VALUES pr)
     + (if isCheck E (move E p m) then 50 else 0)"
  by (cases "captured (moveObj E p m)"; cases "promotion (moveObj E p m)")
     (simp_all add: moveScore_def scoreMove_def)

lemma PIECE_VALUES_range: "0 < PIECE_VALUES t" "t \<noteq> King \<Longrightarrow> PIECE_VALUES t \<le> 900"
  by (cases t; simp)+

lemma quiet_score:
  assumes "captured (moveObj E p m) = None" "promotion (moveObj E p m) \<noteq> Some King"
  shows "moveScore E p m \<le> 950"
proof (cases "promotion (moveObj E p m)")
  case None
  with assms show ?thesis by (simp add: moveScore_formula)
next
  case (Some pr)
  with assms(2) have "pr \<noteq> King"
    by auto
  then have "PIECE_VALUES pr \<le> 900"
    by (rule PIECE_VALUES_range(2))
  with assms(1) Some show ?thesis by (simp add: moveScore_formula)
qed

lemma pawn_takes_queen_score:
  assumes "captured (moveObj E p m) = Some Queen" "moved (moveObj E p m) = Pawn"
  shows "8900 \<le> moveScore E p m"
proof -
  have "0 \<le> (case promotion (moveObj E p m) of None \<Rightarrow> 0 | Some pr \<Rightarrow> PIECE_VALUES pr)"
    using PIECE_VALUES_range(1) [THEN less_imp_le] by (cases "promotion (moveObj E p m)") simp_all
  with assms show ?thesis by (simp add: moveScore_formula)
qed

lemma best_scored_first:
  assumes srt: "sorted_wrt (\<lambda>a b. f b \<le> (f a :: int)) xs"
    and x: "x \<in> set xs"
    and top: "\<forall>m \<in> set xs. m \<noteq> x \<longrightarrow> f m < f x"
  shows "\<exists>rest. xs = x # rest"
proof (cases xs)
  case Nil
  with x show ?thesis by simp
next
  case (Cons y rest)
  show ?thesis
  proof (cases "y = x")
    case True
    with Cons show ?thesis by simp
  next
    case False
    with Cons x have "x \<in> set rest" by simp
    with srt Cons have "f x \<le> f y" by simp
    moreover from top Cons False have "f y < f x" by simp
    ultimately show ?thesis by simp
  qed
qed

text \<open>
  C6: \<open>orderMoves\<close> returns a permutation of its move list, sorted by descending
  score, where the score of a move is 10 times the value of the captured piece minus the
  value of the moving piece for a capture, plus the value of the promoted piece for a
  promotion, plus 50 when the position after the move is a check. Given a list with one
  capture of a queen by a pawn and otherwise moves that capture nothing (and, as
  moves of chess, do not promote to a king), the capture comes first. Each move is
  scored in the position the previous undo left, so undo is assumed to revert moves.
\<close>

theorem orderMoves_ranks:
  assumes "undoReverts E"
  shows "mset (fst (orderMoves E p ms)) = mset ms \<and>
         sorted_wrt (\<lambda>a b. moveScore E p b \<le> moveScore E p a) (fst (orderMoves E p ms)) \<and>
         moveScore E p m =
           (case captured (moveObj E p m) of
              None \<Rightarrow> 0
            | Some c \<Rightarrow> 10 * PIECE_VALUES c - PIECE_VALUES (moved (moveObj E p m)))
           + (case promotion (moveObj E p m) of None \<Rightarrow> 0 | Some pr \<Rightarrow> PIECE_VALUES pr)
           + (if isCheck E (move E p m) then 50 else 0) \<and>
         (x \<in> set ms \<and> captured (moveObj E p x) = Some Queen \<and> moved (moveObj E p x) = Pawn \<and>
          (\<forall>m \<in> set ms. m \<noteq> x \<longrightarrow>
             captured (moveObj E p m) = None \<and> promotion (moveObj E p m) \<noteq> Some King)
          \<longrightarrow> (\<exists>rest. fst (orderMoves E p ms) = x # rest))"
proof (intro conjI impI)
  show "mset (fst (orderMoves E p ms)) = mset ms"
    by (rule orderMoves_mset)
  show srt: "sorted_wrt (\<lambda>a b. moveScore E p b \<le> moveScore E p a) (fst (orderMoves E p ms))"
    using assms by (rule orderMoves_sorted)
  show "moveScore E p m =
           (case captured (moveObj E p m) of
              None \<Rightarrow> 0
            | Some c \<Rightarrow> 10 * PIECE_VALUES c - PIECE_VALUES (moved (moveObj E p m)))
           + (case promotion (moveObj E p m) of None \<Rightarrow> 0 | Some pr \<Rightarrow> PIECE_VALUES pr)
           + (if isCheck E (move E p m) then 50 else 0)"
    by (rule moveScore_formula)
  assume h: "x \<in> set ms \<and> captured (moveObj E p x) = Some Queen \<and> moved (moveObj E p x) = Pawn \<and>
          (\<forall>m \<in> set ms. m \<noteq> x \<longrightarrow>
             captured (moveObj E p m) = None \<and> promotion (moveObj E p m) \<noteq> Some King)"
  have same: "set (fst (orderMoves E p ms)) = set ms"
    using orderMoves_mset by (rule mset_eq_setD)
  from h have big: "8900 \<le> moveScore E p x"
    by (intro pawn_takes_queen_score) auto
  have "moveScore E p m < moveScore E p x" if "m \<in> set ms" "m \<noteq> x" for m
  proof -
    from h that have "moveScore E p m \<le> 950"
      by (intro quiet_score) auto
    with big show ?thesis by simp
  qed
  with same h show "\<exists>rest. fst (orderMoves E p ms) = x # rest"
    by (intro best_scored_first [OF srt]) auto
qed

theorem orderMoves_ranks_witness:
  "fst (orderMoves demo [''Qf6''] [''h6'', ''gxf6'', ''Kh8'']) = [''gxf6'', ''h6'', ''Kh8''] \<and>
   captured (moveObj demo [''Qf6''] ''gxf6'') = Some Queen \<and>
   moved (moveObj demo [''Qf6''] ''gxf6'') = Pawn \<and>
   moveScore demo [''Qf6''] ''gxf6'' = 8900 \<and>
   moveScore demo [''Qf6''] ''h6'' = 0 \<and> moveScore demo [''Qf6''] ''Kh8'' = 0"
proof -
  let ?ms = "[''h6'', ''gxf6'', ''Kh8'']"
  have c: "captured (moveObj demo [''Qf6''] ''gxf6'') = Some Queen"
    "moved (moveObj demo [''Qf6''] ''gxf6'') = Pawn"
    by (simp_all add: demo_def demoObj_def)
  have q: "\<forall>m \<in> set ?ms. m \<noteq> ''gxf6'' \<longrightarrow>
             captured (moveObj demo [''Qf6''] m) = None \<and>
             promotion (moveObj demo [''Qf6''] m) \<noteq> Some King"
    by (simp add: demo_def demoObj_def)
  have x: "''gxf6'' \<in> set ?ms"
    by simp
  from orderMoves_ranks [OF demo_undo, where p = "[''Qf6'']" and ms = ?ms and x = "''gxf6''"]
    x c q
  obtain rest where
    r: "fst (orderMoves demo [''Qf6''] ?ms) = ''gxf6'' # rest"
    by blast
  have "tl (fst (orderMoves demo [''Qf6''] ?ms)) = [''h6'', ''Kh8'']"
    by code_simp
  with r have a: "fst (orderMoves demo [''Qf6''] ?ms) = [''gxf6'', ''h6'', ''Kh8'']"
    by simp
  have s1: "moveScore demo [''Qf6''] ''gxf6'' = 8900"
    by code_simp
  have s2: "moveScore demo [''Qf6''] ''h6'' = 0"
    by code_simp
  have s3: "moveScore demo [''Qf6''] ''Kh8'' = 0"
    by code_simp
  from a c s1 s2 s3 show ?thesis by simp
qed

section \<open>The tool calls\<close>

lemma clampDepth_le: "clampDepth ceiling d \<le> ceiling"
  by (simp add: clampDepth_def)

text \<open>
  C9: the handler of \<open>get_best_move\<close> passes to \<open>getBestMove\<close> the depth
  \<open>Math.min(args.depth || 3, 3)\<close>, which is at most 3 whatever the caller asks for;
  the handler of the second copy passes \<open>Math.min(args.depth || 3, 4)\<close>, at most 4.
\<close>

theorem get_best_move_depth_clamped:
  "clampDepth 3 (depth_arg args) \<le> 3 \<and> clampDepth 4 (depth_arg args) \<le> 4 \<and>
   (games (game_id args) = Some chess \<longrightarrow>
      callTool fuel E games ''get_best_move'' args =
        (case getBestMove fuel E chess (clampDepth 3 (depth_arg args)) of
           None \<Rightarrow> None
         | Some (bestMove, chess') \<Rightarrow>
             Some (\<lparr>text_of = bestMoveText bestMove, isError = False\<rparr>,
                   games(game_id args \<mapsto> chess'))) \<and>
      callTool2 fuel E games ''get_best_move'' args =
        (case getBestMove2 fuel E chess (clampDepth 4 (depth_arg args)) of
           None \<Rightarrow> None
         | Some (bestMove, chess') \<Rightarrow>
             Some (\<lparr>text_of = bestMoveText bestMove, isError = False\<rparr>,
                   games(game_id args \<mapsto> chess'))))"
  by (simp add: clampDepth_le callTool_def callTool2_def handleCall_def)

theorem get_best_move_depth_clamped_witness:
  "clampDepth 3 (Some 10) = 3 \<and> clampDepth 4 (Some 10) = 4 \<and>
   callTool 3 demo [''g1'' \<mapsto> []] ''get_best_move''
     \<lparr>game_id = ''g1'', move_arg = [], depth_arg = Some 10\<rparr>
   = Some (\<lparr>text_of = ''Qxf7+'', isError = False\<rparr>, [''g1'' \<mapsto> []])"
proof -
  let ?args = "\<lparr>game_id = ''g1'', move_arg = [], depth_arg = Some 10\<rparr>"
  have c: "clampDepth 3 (Some 10) = 3 \<and> clampDepth 4 (Some 10) = 4"
    by (simp add: clampDepth_def)
  have g: "[''g1'' \<mapsto> []] (game_id ?args) = Some ([] :: string list)"
    by simp
  have b: "getBestMove 3 demo [] 3 = Some (Some ''Qxf7+'', [])"
    by code_simp
  from get_best_move_depth_clamped [of ?args "[''g1'' \<mapsto> []]" "[]" 3 demo] g c b
  have "callTool 3 demo [''g1'' \<mapsto> []] ''get_best_move'' ?args
          = Some (\<lparr>text_of = ''Qxf7+'', isError = False\<rparr>, [''g1'' \<mapsto> []])"
    by (simp add: bestMoveText_def)
  with c show ?thesis by simp
qed

text \<open>
  C10: a call of \<open>get_legal_moves\<close>, \<open>make_move\<close>, \<open>get_best_move\<close> or
  \<open>get_board\<close> whose game identifier is not a key of the map of games returns the
  error result with the text \<open>Game not found\<close> and leaves the map, and so every
  stored position, as it was; a call with a name that is none of the five tools
  returns the error result whose text is \<open>Unknown tool: \<close> followed by the name,
  and leaves the map as it was.
\<close>

theorem unknown_game_or_tool_is_error:
  "(games (game_id args) = None \<and>
    name \<in> {''get_legal_moves'', ''make_move'', ''get_best_move'', ''get_board''} \<longrightarrow>
      callTool fuel E games name args
        = Some (\<lparr>text_of = ''Game not found'', isError = True\<rparr>, games)) \<and>
   (name \<notin> {''new_game'', ''get_legal_moves'', ''make_move'', ''get_best_move'', ''get_board''} \<longrightarrow>
      callTool fuel E games name args
        = Some (\<lparr>text_of = ''Unknown tool: '' @ name, isError = True\<rparr>, games))"
  by (auto simp: callTool_def handleCall_def gameNotFound_def)

theorem unknown_game_or_tool_is_error_witness:
  "callTool 3 demo [''g1'' \<mapsto> []] ''make_move''
     \<lparr>game_id = ''g2'', move_arg = ''Ra8#'', depth_arg = None\<rparr>
     = Some (\<lparr>text_of = ''Game not found'', isError = True\<rparr>, [''g1'' \<mapsto> []]) \<and>
   callTool 3 demo [''g1'' \<mapsto> []] ''resign''
     \<lparr>game_id = ''g1'', move_arg = [], depth_arg = None\<rparr>
     = Some (\<lparr>text_of = ''Unknown tool: resign'', isError = True\<rparr>, [''g1'' \<mapsto> []])"
proof -
  let ?games = "[''g1'' \<mapsto> ([] :: string list)]"
  let ?a1 = "\<lparr>game_id = ''g2'', move_arg = ''Ra8#'', depth_arg = None\<rparr>"
  let ?a2 = "\<lparr>game_id = ''g1'', move_arg = [], depth_arg = None\<rparr>"
  have 1: "?games (game_id ?a1) = None \<and>
           ''make_move'' \<in> {''get_legal_moves'', ''make_move'', ''get_best_move'', ''get_board''}"
    by simp
  have 2: "''resign'' \<notin> {''new_game'', ''get_legal_moves'', ''make_move'', ''get_best_move'',
                         ''get_board''}"
    by simp
  from unknown_game_or_tool_is_error [of ?games ?a1 "''make_move''" 3 demo] 1
  have a: "callTool 3 demo ?games ''make_move'' ?a1
             = Some (\<lparr>text_of = ''Game not found'', isError = True\<rparr>, ?games)"
    by blast
  from unknown_game_or_tool_is_error [of ?games ?a2 "''resign''" 3 demo] 2
  have b: "callTool 3 demo ?games ''resign'' ?a2
             = Some (\<lparr>text_of = ''Unknown tool: resign'', isError = True\<rparr>, ?games)"
    by simp
  from a b show ?thesis by blast
qed

section \<open>The size of an ordinary evaluation\<close>

lemma PST_rows: "length (PST t) = 8"
  by (cases t) simp_all

lemma PST_cols: "row \<in> set (PST t) \<Longrightarrow> length row = 8"
  by (cases t) auto

lemma PST_entry:
  assumes "r < 8" "c < 8"
  shows "PST t ! r ! c \<in> set (concat (PST t))"
proof -
  have row: "PST t ! r \<in> set (PST t)"
    using assms(1) by (simp add: PST_rows)
  then have "PST t ! r ! c \<in> set (PST t ! r)"
    using assms(2) by (simp add: PST_cols)
  with row show ?thesis by auto
qed

lemma PST_range:
  "v \<in> set (concat (PST Pawn)) \<Longrightarrow> - 20 \<le> v \<and> v \<le> 50"
  "v \<in> set (concat (PST Knight)) \<Longrightarrow> - 50 \<le> v \<and> v \<le> 20"
  "v \<in> set (concat (PST Bishop)) \<Longrightarrow> - 20 \<le> v \<and> v \<le> 10"
  "v \<in> set (concat (PST Rook)) \<Longrightarrow> - 5 \<le> v \<and> v \<le> 10"
  "v \<in> set (concat (PST Queen)) \<Longrightarrow> - 20 \<le> v \<and> v \<le> 5"
  "v \<in> set (concat (PST King)) \<Longrightarrow> - 50 \<le> v \<and> v \<le> 30"
  by auto

lemma getPST_entry:
  assumes "row < 8" "col < 8"
  shows "getPST pc row col \<in> set (concat (PST (ptype pc)))"
proof -
  have "(if pcolor pc = White then row else 7 - row) < 8"
    using assms(1) by auto
  from PST_entry [OF this assms(2)] show ?thesis
    by (simp add: getPST_def)
qed

text \<open>The value of one piece on one square: material plus table entry.\<close>

lemma piece_value_range:
  assumes "row < 8" "col < 8"
  shows "ptype pc \<noteq> King \<Longrightarrow>
           0 \<le> PIECE_VALUES (ptype pc) + getPST pc row col \<and>
           PIECE_VALUES (ptype pc) + getPST pc row col \<le> 905"
    and "ptype pc = King \<Longrightarrow>
           19950 \<le> PIECE_VALUES (ptype pc) + getPST pc row col \<and>
           PIECE_VALUES (ptype pc) + getPST pc row col \<le> 20030"
  using getPST_entry [OF assms, of pc] PST_range [of "getPST pc row col"]
  by (cases "ptype pc"; simp)+

lemma square_range:
  assumes "fst sq < 8" "snd sq < 8"
  shows "isKing bd White sq \<Longrightarrow>
           19950 \<le> squareScore bd (fst sq) (snd sq) 0 \<and> squareScore bd (fst sq) (snd sq) 0 \<le> 20030"
    and "isKing bd Black sq \<Longrightarrow>
           - 20030 \<le> squareScore bd (fst sq) (snd sq) 0 \<and> squareScore bd (fst sq) (snd sq) 0 \<le> - 19950"
    and "\<not> isKing bd White sq \<Longrightarrow> \<not> isKing bd Black sq \<Longrightarrow>
           - 905 \<le> squareScore bd (fst sq) (snd sq) 0 \<and> squareScore bd (fst sq) (snd sq) 0 \<le> 905"
proof -
  show "19950 \<le> squareScore bd (fst sq) (snd sq) 0 \<and> squareScore bd (fst sq) (snd sq) 0 \<le> 20030"
    if "isKing bd White sq"
    using that piece_value_range(2) [OF assms, of "\<lparr>ptype = King, pcolor = White\<rparr>"]
    by (simp add: isKing_def squareScore_def)
  show "- 20030 \<le> squareScore bd (fst sq) (snd sq) 0 \<and> squareScore bd (fst sq) (snd sq) 0 \<le> - 19950"
    if "isKing bd Black sq"
    using that piece_value_range(2) [OF assms, of "\<lparr>ptype = King, pcolor = Black\<rparr>"]
    by (simp add: isKing_def squareScore_def)
  show "- 905 \<le> squareScore bd (fst sq) (snd sq) 0 \<and> squareScore bd (fst sq) (snd sq) 0 \<le> 905"
    if nw: "\<not> isKing bd White sq" and nb: "\<not> isKing bd Black sq"
  proof (cases "bd (fst sq) (snd sq)")
    case None
    then show ?thesis by (simp add: squareScore_def)
  next
    case (Some pc)
    have "ptype pc \<noteq> King"
    proof
      assume k: "ptype pc = King"
      have "pc = \<lparr>ptype = King, pcolor = pcolor pc\<rparr>"
        using k by simp
      with Some nw nb show False
        by (cases "pcolor pc") (auto simp: isKing_def)
    qed
    from piece_value_range(1) [OF assms this] Some show ?thesis
      by (simp add: squareScore_def Let_def)
  qed
qed

lemma squareScore_acc: "squareScore bd row col s = s + squareScore bd row col 0"
  by (simp add: squareScore_def Let_def split: option.splits)

lemma row_fold:
  "fold (\<lambda>col score. squareScore bd row col score) cs s
     = s + sum_list (map (\<lambda>col. squareScore bd row col 0) cs)"
proof (induction cs arbitrary: s)
  case Nil
  show ?case by simp
next
  case (Cons c cs)
  show ?case
    using squareScore_acc [of bd row c s] by (simp add: Cons)
qed

lemma fold_add:
  fixes g :: "'a \<Rightarrow> int"
  shows "fold (\<lambda>x score. score + g x) xs s = s + sum_list (map g xs)"
  by (induction xs arbitrary: s) simp_all

lemma sum_product:
  fixes h :: "'a \<times> 'b \<Rightarrow> int"
  shows "sum_list (map h (List.product rs cs))
           = sum_list (map (\<lambda>r. sum_list (map (\<lambda>c. h (r, c)) cs)) rs)"
  by (induction rs) (simp_all add: comp_def)

lemma board_fold:
  "fold (\<lambda>row score. fold (\<lambda>col score. squareScore bd row col score) cs score) rs s
     = s + sum_list (map (\<lambda>sq. squareScore bd (fst sq) (snd sq) 0) (List.product rs cs))"
proof -
  have "fold (\<lambda>row score. fold (\<lambda>col score. squareScore bd row col score) cs score) rs s
          = fold (\<lambda>row score. score + sum_list (map (\<lambda>col. squareScore bd row col 0) cs)) rs s"
    by (simp add: row_fold)
  also have "\<dots> = s + sum_list (map (\<lambda>row. sum_list (map (\<lambda>col. squareScore bd row col 0) cs)) rs)"
    by (rule fold_add)
  finally show ?thesis
    by (simp add: sum_product)
qed

lemma boardScore_sum:
  "boardScore bd = sum_list (map (\<lambda>sq. squareScore bd (fst sq) (snd sq) 0) squares)"
  by (simp add: boardScore_def squares_def board_fold)

lemma kings_count: "kings bd c = length (filter (isKing bd c) squares)"
  by (simp add: kings_def isKing_def [abs_def] case_prod_unfold)

lemma sum_between:
  fixes f :: "'a \<Rightarrow> int"
  assumes "\<And>x. x \<in> set xs \<Longrightarrow> W x \<Longrightarrow> 19950 \<le> f x \<and> f x \<le> 20030"
    and "\<And>x. x \<in> set xs \<Longrightarrow> B x \<Longrightarrow> - 20030 \<le> f x \<and> f x \<le> - 19950"
    and "\<And>x. x \<in> set xs \<Longrightarrow> \<not> W x \<Longrightarrow> \<not> B x \<Longrightarrow> - 905 \<le> f x \<and> f x \<le> 905"
    and "\<And>x. \<not> (W x \<and> B x)"
  shows "\<bar>sum_list (map f xs) - 19990 * (int (length (filter W xs)) - int (length (filter B xs)))\<bar>
           \<le> 905 * int (length xs)"
  using assms(1-3)
proof (induction xs)
  case Nil
  show ?case by simp
next
  case (Cons x xs)
  have IH: "\<bar>sum_list (map f xs) - 19990 * (int (length (filter W xs)) - int (length (filter B xs)))\<bar>
           \<le> 905 * int (length xs)"
    by (rule Cons.IH) (use Cons.prems in auto)
  consider "W x" "\<not> B x" | "B x" "\<not> W x" | "\<not> W x" "\<not> B x"
    using assms(4) by blast
  then show ?case
  proof cases
    case 1
    with Cons.prems(1) [of x] have "19950 \<le> f x \<and> f x \<le> 20030" by simp
    with 1 IH show ?thesis by (simp add: abs_le_iff)
  next
    case 2
    with Cons.prems(2) [of x] have "- 20030 \<le> f x \<and> f x \<le> - 19950" by simp
    with 2 IH show ?thesis by (simp add: abs_le_iff)
  next
    case 3
    with Cons.prems(3) [of x] have "- 905 \<le> f x \<and> f x \<le> 905" by simp
    with 3 IH show ?thesis by (simp add: abs_le_iff)
  qed
qed

lemma squares_range: "sq \<in> set squares \<Longrightarrow> fst sq < 8 \<and> snd sq < 8"
  by (auto simp: squares_def)

lemma boardScore_bound:
  assumes "kings bd White = 1" "kings bd Black = 1"
  shows "\<bar>boardScore bd\<bar> \<le> 57920"
proof -
  let ?f = "\<lambda>sq. squareScore bd (fst sq) (snd sq) 0"
  have "\<bar>sum_list (map ?f squares)
          - 19990 * (int (length (filter (isKing bd White) squares))
                     - int (length (filter (isKing bd Black) squares)))\<bar>
        \<le> 905 * int (length squares)"
  proof (rule sum_between)
    fix sq assume "sq \<in> set squares"
    then have r: "fst sq < 8" "snd sq < 8"
      using squares_range by auto
    show "isKing bd White sq \<Longrightarrow> 19950 \<le> ?f sq \<and> ?f sq \<le> 20030"
      by (rule square_range(1) [OF r])
    show "isKing bd Black sq \<Longrightarrow> - 20030 \<le> ?f sq \<and> ?f sq \<le> - 19950"
      by (rule square_range(2) [OF r])
    show "\<not> isKing bd White sq \<Longrightarrow> \<not> isKing bd Black sq \<Longrightarrow> - 905 \<le> ?f sq \<and> ?f sq \<le> 905"
      by (rule square_range(3) [OF r])
  next
    fix sq show "\<not> (isKing bd White sq \<and> isKing bd Black sq)"
      by (simp add: isKing_def)
  qed
  moreover have "length squares = 64"
    by (simp add: squares_def)
  ultimately show ?thesis
    using assms by (simp add: boardScore_sum kings_count)
qed

text \<open>
  C8: in a position that is neither checkmate nor a recognized draw, with exactly one
  king of each colour on the 64 squares and no more than 20160 legal moves (the number
  of triples of a source square, another target square and one of five promotion
  choices; a position of chess has far fewer moves), the absolute value of what
  \<open>evaluatePosition\<close> returns, the sum of the material, piece-square and mobility
  terms, is strictly less than 99999.
\<close>

theorem evaluation_below_mate_value:
  assumes "\<not> isCheckmate E p" and "\<not> isDraw E p"
    and "kings (board E p) White = 1" and "kings (board E p) Black = 1"
    and "length (moves E p) \<le> 20160"
  shows "evaluatePosition E p
           = boardScore (board E p)
             + (if turn E p = White then 2 * int (length (moves E p))
                else - 2 * int (length (moves E p))) \<and>
         \<bar>evaluatePosition E p\<bar> < 99999"
proof -
  have e: "evaluatePosition E p
           = boardScore (board E p)
             + (if turn E p = White then 2 * int (length (moves E p))
                else - 2 * int (length (moves E p)))"
    using assms(1,2) by (simp add: evaluatePosition_def Let_def)
  have "\<bar>boardScore (board E p)\<bar> \<le> 57920"
    using assms(3,4) by (rule boardScore_bound)
  with e assms(5) show ?thesis
    by (simp split: if_splits)
qed

theorem evaluation_below_mate_value_witness:
  "\<not> isCheckmate demo [] \<and> \<not> isDraw demo [] \<and>
   kings (board demo []) White = 1 \<and> kings (board demo []) Black = 1 \<and>
   length (moves demo []) = 4 \<and> evaluatePosition demo [] = 1418 \<and>
   \<bar>evaluatePosition demo []\<bar> < 99999"
proof -
  have a: "\<not> isCheckmate demo []" "\<not> isDraw demo []"
    by code_simp+
  have k: "kings (board demo []) White = 1" "kings (board demo []) Black = 1"
    by code_simp+
  have n: "length (moves demo []) = 4"
    by code_simp
  then have n': "length (moves demo []) \<le> 20160"
    by simp
  have v: "evaluatePosition demo [] = 1418"
    by code_simp
  from evaluation_below_mate_value [OF a k n'] a k n v show ?thesis
    by simp
qed

section \<open>Mate in one\<close>

lemma minimax_exact:
  assumes "undoReverts E" "0 \<le> depth" "depth < int fuel"
  shows "minimax fuel E p depth NegInf PosInf mx = Some (fullMinimax E (nat depth) p mx, p)"
proof -
  have "NegInf < PosInf" by simp
  from minimaxVia_within [OF assms(1) rankMoves_keeps [OF assms(1)] assms(2,3) this, of p mx]
  show ?thesis
    by (auto simp: minimax_is_Via dest: within_full)
qed

lemma fold_min_le: "v \<in> set vs \<Longrightarrow> fold min vs a \<le> (v::score)"
proof (induction vs arbitrary: a)
  case Nil
  then show ?case by simp
next
  case (Cons w vs)
  show ?case
  proof (cases "v = w")
    case True
    have "fold min (w # vs) a = min (min w a) (fold min vs PosInf)"
      using fold_min_acc [of vs "min w a"] by simp
    with True show ?thesis by (simp add: min.coboundedI1)
  next
    case False
    with Cons.prems have "v \<in> set vs" by simp
    from Cons.IH [OF this] show ?thesis by simp
  qed
qed

lemma fold_max_ge: "v \<in> set vs \<Longrightarrow> (v::score) \<le> fold max vs a"
proof (induction vs arbitrary: a)
  case Nil
  then show ?case by simp
next
  case (Cons w vs)
  show ?case
  proof (cases "v = w")
    case True
    have "fold max (w # vs) a = max (max w a) (fold max vs NegInf)"
      using fold_max_acc [of vs "max w a"] by simp
    with True show ?thesis by (simp add: max.coboundedI1)
  next
    case False
    with Cons.prems have "v \<in> set vs" by simp
    from Cons.IH [OF this] show ?thesis by simp
  qed
qed

text \<open>
  The loop of \<open>getBestMove\<close> on a list in which no value exceeds the value
  \<open>T\<close> of the move \<open>x\<close> and every move that stands before \<open>x\<close> stays
  strictly below \<open>T\<close>: it ends with \<open>x\<close>, because a later move replaces the
  best one only on a strictly better score.
\<close>

lemma loopBest_max_first:
  assumes U: "undoReverts E"
    and C: "\<And>m. child (move E p m) = Some (val m, move E p m)"
    and le: "\<And>m. val m \<le> T"
    and top: "val x = T"
  shows "(bm = Some x \<and> bs = T) \<or>
         (bs < T \<and> (\<exists>pre post. ms = pre @ x # post \<and> (\<forall>m \<in> set pre. val m < T))) \<Longrightarrow>
         loopBest child E ms p True bm bs = Some (Some x, p)"
proof (induction ms arbitrary: bm bs)
  case Nil
  then show ?case by simp
next
  case (Cons m ms)
  have undone: "undo E (move E p m) = p"
    using U by (simp add: undoReverts_def)
  have step: "loopBest child E (m # ms) p True bm bs
                = (if bs < val m then loopBest child E ms p True (Some m) (val m)
                   else loopBest child E ms p True bm bs)"
    using C [of m] undone by simp
  from Cons.prems show ?case
  proof
    assume held: "bm = Some x \<and> bs = T"
    then have "\<not> bs < val m"
      using le [of m] by simp
    with held show ?thesis
      unfolding step by (simp add: Cons.IH)
  next
    assume ahead: "bs < T \<and> (\<exists>pre post. m # ms = pre @ x # post \<and> (\<forall>m \<in> set pre. val m < T))"
    then obtain pre post where
      split: "m # ms = pre @ x # post" and low: "\<forall>m \<in> set pre. val m < T" and bs: "bs < T"
      by blast
    show ?thesis
    proof (cases pre)
      case Nil
      with split have "m = x" by simp
      with bs top show ?thesis
        unfolding step by (simp add: Cons.IH)
    next
      case (Cons m' pre')
      with split have m: "m' = m" and rest: "ms = pre' @ x # post"
        by simp_all
      from low Cons m have lowm: "val m < T" and low': "\<forall>m \<in> set pre'. val m < T"
        by simp_all
      have again: "loopBest child E ms p True bm' bs' = Some (Some x, p)" if "bs' < T" for bm' bs'
        by (rule Cons.IH) (use that rest low' in blast)
      from bs lowm show ?thesis
        unfolding step by (simp add: again)
    qed
  qed
qed

lemma loopBest_min_first:
  assumes U: "undoReverts E"
    and C: "\<And>m. child (move E p m) = Some (val m, move E p m)"
    and ge: "\<And>m. T \<le> val m"
    and top: "val x = T"
  shows "(bm = Some x \<and> bs = T) \<or>
         (T < bs \<and> (\<exists>pre post. ms = pre @ x # post \<and> (\<forall>m \<in> set pre. T < val m))) \<Longrightarrow>
         loopBest child E ms p False bm bs = Some (Some x, p)"
proof (induction ms arbitrary: bm bs)
  case Nil
  then show ?case by simp
next
  case (Cons m ms)
  have undone: "undo E (move E p m) = p"
    using U by (simp add: undoReverts_def)
  have step: "loopBest child E (m # ms) p False bm bs
                = (if val m < bs then loopBest child E ms p False (Some m) (val m)
                   else loopBest child E ms p False bm bs)"
    using C [of m] undone by simp
  from Cons.prems show ?case
  proof
    assume held: "bm = Some x \<and> bs = T"
    then have "\<not> val m < bs"
      using ge [of m] by simp
    with held show ?thesis
      unfolding step by (simp add: Cons.IH)
  next
    assume ahead: "T < bs \<and> (\<exists>pre post. m # ms = pre @ x # post \<and> (\<forall>m \<in> set pre. T < val m))"
    then obtain pre post where
      split: "m # ms = pre @ x # post" and low: "\<forall>m \<in> set pre. T < val m" and bs: "T < bs"
      by blast
    show ?thesis
    proof (cases pre)
      case Nil
      with split have "m = x" by simp
      with bs top show ?thesis
        unfolding step by (simp add: Cons.IH)
    next
      case (Cons m' pre')
      with split have m: "m' = m" and rest: "ms = pre' @ x # post"
        by simp_all
      from low Cons m have lowm: "T < val m" and low': "\<forall>m \<in> set pre'. T < val m"
        by simp_all
      have again: "loopBest child E ms p False bm' bs' = Some (Some x, p)" if "T < bs'" for bm' bs'
        by (rule Cons.IH) (use that rest low' in blast)
      from bs lowm show ?thesis
        unfolding step by (simp add: again)
    qed
  qed
qed

lemma other_color: "c \<noteq> White \<longleftrightarrow> c = Black" "c \<noteq> Black \<longleftrightarrow> c = White"
  by (cases c; simp)+

lemma rules_turn: "chessRules E \<Longrightarrow> turn E (move E q m) \<noteq> turn E q"
  by (simp add: chessRules_def)

lemma rules_over: "chessRules E \<Longrightarrow> isCheckmate E q \<or> moves E q = [] \<Longrightarrow> isGameOver E q"
  by (auto simp: chessRules_def)

lemma rules_bound:
  "chessRules E \<Longrightarrow> \<not> isCheckmate E q \<Longrightarrow>
     - 99999 < evaluatePosition E q \<and> evaluatePosition E q < 99999"
  by (auto simp: chessRules_def abs_less_iff)

lemma mate_eval:
  "isCheckmate E q \<Longrightarrow> evaluatePosition E q = (if turn E q = White then - 99999 else 99999)"
  by (simp add: evaluatePosition_def)

lemma white_to_move_below:
  assumes "chessRules E" "turn E q = White"
  shows "evaluatePosition E q < 99999"
  using assms rules_bound [OF assms(1), of q] mate_eval [of E q]
  by (cases "isCheckmate E q") simp_all

lemma black_to_move_above:
  assumes "chessRules E" "turn E q = Black"
  shows "- 99999 < evaluatePosition E q"
  using assms rules_bound [OF assms(1), of q] mate_eval [of E q]
  by (cases "isCheckmate E q") simp_all

lemma mated_value:
  assumes "chessRules E" "isCheckmate E q"
  shows "fullMinimax E d q f = Num (if turn E q = White then - 99999 else 99999)"
proof -
  have "isGameOver E q"
    using assms by (intro rules_over) auto
  then have "fullMinimax E d q f = Num (evaluatePosition E q)"
    by (cases d) simp_all
  with assms(2) show ?thesis
    by (simp add: mate_eval)
qed

text \<open>
  The value, searched no deeper than one ply, of a reply position in which the side to
  move is not checkmated: when Black is to move it stays below White's mate value, when White
  is to move it stays above Black's.
\<close>

lemma reply_below_mate:
  assumes R: "chessRules E" and t: "turn E q = Black" and n: "\<not> isCheckmate E q"
    and d: "d = 0 \<or> d = Suc 0"
  shows "fullMinimax E d q False < Num 99999"
proof -
  have leaf: "Num (evaluatePosition E q) < Num 99999"
    using rules_bound [OF R n] by simp
  show ?thesis
  proof (cases "d = 0 \<or> isGameOver E q")
    case True
    with leaf show ?thesis by (cases d) auto
  next
    case False
    with d have d1: "d = Suc 0" and live: "\<not> isGameOver E q"
      by auto
    from live have "moves E q \<noteq> []"
      using rules_over [OF R, of q] by auto
    then obtain m ms where ms: "moves E q = m # ms"
      by (cases "moves E q") auto
    have "turn E (move E q m) = White"
      using rules_turn [OF R, of q m] t by (simp add: other_color)
    then have "Num (evaluatePosition E (move E q m)) < Num 99999"
      using white_to_move_below [OF R] by simp
    moreover have "fold min (map (\<lambda>m. Num (evaluatePosition E (move E q m))) (moves E q)) PosInf
                     \<le> Num (evaluatePosition E (move E q m))"
      by (rule fold_min_le) (simp add: ms)
    ultimately have "fold min (map (\<lambda>m. Num (evaluatePosition E (move E q m))) (moves E q)) PosInf
                       < Num 99999"
      by (rule le_less_trans [rotated])
    with d1 live show ?thesis
      by (simp add: Let_def)
  qed
qed

lemma reply_above_mate:
  assumes R: "chessRules E" and t: "turn E q = White" and n: "\<not> isCheckmate E q"
    and d: "d = 0 \<or> d = Suc 0"
  shows "Num (- 99999) < fullMinimax E d q True"
proof -
  have leaf: "Num (- 99999) < Num (evaluatePosition E q)"
    using rules_bound [OF R n] by simp
  show ?thesis
  proof (cases "d = 0 \<or> isGameOver E q")
    case True
    with leaf show ?thesis by (cases d) auto
  next
    case False
    with d have d1: "d = Suc 0" and live: "\<not> isGameOver E q"
      by auto
    from live have "moves E q \<noteq> []"
      using rules_over [OF R, of q] by auto
    then obtain m ms where ms: "moves E q = m # ms"
      by (cases "moves E q") auto
    have "turn E (move E q m) = Black"
      using rules_turn [OF R, of q m] t by (simp add: other_color)
    then have "Num (- 99999) < Num (evaluatePosition E (move E q m))"
      using black_to_move_above [OF R] by simp
    moreover have "Num (evaluatePosition E (move E q m))
                     \<le> fold max (map (\<lambda>m. Num (evaluatePosition E (move E q m))) (moves E q)) NegInf"
      by (rule fold_max_ge) (simp add: ms)
    ultimately have "Num (- 99999)
                       < fold max (map (\<lambda>m. Num (evaluatePosition E (move E q m))) (moves E q)) NegInf"
      by (rule less_le_trans)
    with d1 live show ?thesis
      by (simp add: Let_def)
  qed
qed

text \<open>Under the rules of chess no search value lies beyond the two mate values.\<close>

lemma eval_range:
  assumes "chessRules E"
  shows "- 99999 \<le> evaluatePosition E q \<and> evaluatePosition E q \<le> 99999"
  using rules_bound [OF assms, of q] mate_eval [of E q]
  by (cases "isCheckmate E q") (simp_all split: if_splits)

lemma fold_max_le: "(\<And>v. v \<in> set vs \<Longrightarrow> v \<le> b) \<Longrightarrow> a \<le> b \<Longrightarrow> fold max vs a \<le> (b::score)"
  by (induction vs arbitrary: a) simp_all

lemma fold_min_ge: "(\<And>v. v \<in> set vs \<Longrightarrow> b \<le> v) \<Longrightarrow> b \<le> a \<Longrightarrow> (b::score) \<le> fold min vs a"
  by (induction vs arbitrary: a) simp_all

lemma value_range:
  assumes R: "chessRules E"
  shows "Num (- 99999) \<le> fullMinimax E d q f \<and> fullMinimax E d q f \<le> Num 99999"
proof (induction d arbitrary: q f)
  case 0
  show ?case using eval_range [OF R, of q] by simp
next
  case (Suc d)
  show ?case
  proof (cases "isGameOver E q")
    case True
    then show ?thesis using eval_range [OF R, of q] by simp
  next
    case False
    then have "moves E q \<noteq> []"
      using rules_over [OF R, of q] by auto
    then obtain m ms where ms: "moves E q = m # ms"
      by (cases "moves E q") auto
    let ?vs = "\<lambda>g. map (\<lambda>m. fullMinimax E d (move E q m) g) (moves E q)"
    have each: "Num (- 99999) \<le> v \<and> v \<le> Num 99999" if "v \<in> set (?vs g)" for v g
      using that Suc.IH by auto
    have first: "fullMinimax E d (move E q m) g \<in> set (?vs g)" for g
      by (simp add: ms)
    show ?thesis
    proof (cases f)
      case True
      have "fold max (?vs False) NegInf \<le> Num 99999"
        by (rule fold_max_le) (use each in auto)
      moreover have "Num (- 99999) \<le> fold max (?vs False) NegInf"
        using each [OF first [of False]] fold_max_ge [OF first [of False], of NegInf]
        by (meson order_trans)
      ultimately show ?thesis
        using False True by (simp add: Let_def)
    next
      case mn: False
      have "Num (- 99999) \<le> fold min (?vs True) PosInf"
        by (rule fold_min_ge) (use each in auto)
      moreover have "fold min (?vs True) PosInf \<le> Num 99999"
        using each [OF first [of True]] fold_min_le [OF first [of True], of PosInf]
        by (meson order_trans)
      ultimately show ?thesis
        using False mn by (simp add: Let_def)
    qed
  qed
qed

text \<open>
  C7, as stated, fails at depth 3. In the sample position Ra8 mates at once and is the
  only move that does; Qxf7+ forces mate a move later (Qxf7+ Kh8 Qf8). The move orderer
  ranks the capture Qxf7+ before Ra8, at depth 3 both are worth 99999, and the later
  move does not replace the earlier one: \<open>getBestMove\<close> returns Qxf7+.
\<close>

theorem mate_in_one_depth3_counterexample:
  "moves demo [] = [''Kh1'', ''Qf6'', ''Ra8#'', ''Qxf7+''] \<and>
   isCheckmate demo (move demo [] ''Ra8#'') \<and>
   \<not> isCheckmate demo (move demo [] ''Kh1'') \<and>
   \<not> isCheckmate demo (move demo [] ''Qf6'') \<and>
   \<not> isCheckmate demo (move demo [] ''Qxf7+'') \<and>
   getBestMove 3 demo [] 3 = Some (Some ''Qxf7+'', [])"
  by code_simp

text \<open>
  C7, amended: in a position in which exactly one move of the side to move delivers
  checkmate at once, \<open>getBestMove\<close> invoked with any depth of at least 1 returns
  exactly that move, provided that no other root move which the move orderer scores at
  least as high as the mating move has the mate value as its search value (forces mate
  within the horizon). At depth 1 and depth 2 no other move has the mate value, so there
  the mating move is returned without any proviso. The engine is assumed to follow the
  rules of chess named in \<open>chessRules\<close> and to revert a move on undo.
\<close>

theorem mate_in_one_found:
  assumes U: "undoReverts E" and R: "chessRules E"
    and x: "x \<in> set (moves E p)"
    and mate: "isCheckmate E (move E p x)"
    and only: "\<forall>m \<in> set (moves E p). m \<noteq> x \<longrightarrow> \<not> isCheckmate E (move E p m)"
    and depth: "1 \<le> depth"
    and fuel: "depth \<le> int fuel"
    and rivals: "depth \<le> 2 \<or>
       (\<forall>m \<in> set (moves E p). m \<noteq> x \<and> moveScore E p x \<le> moveScore E p m \<longrightarrow>
          fullMinimax E (nat (depth - 1)) (move E p m) (turn E p \<noteq> White)
            \<noteq> Num (if turn E p = White then 99999 else - 99999))"
  shows "getBestMove fuel E p depth = Some (Some x, p)"
proof -
  obtain ord where ord: "orderMoves E p (moves E p) = (ord, p)"
    using orderMoves_state [OF U, of p "moves E p"] by (metis prod.collapse)
  have "mset ord = mset (moves E p)"
    using orderMoves_mset [of E p "moves E p"] ord by simp
  then have same: "set ord = set (moves E p)"
    by (rule mset_eq_setD)
  from x have nonempty: "moves E p \<noteq> []"
    by auto
  have srt: "sorted_wrt (\<lambda>a b. moveScore E p b \<le> moveScore E p a) ord"
    using orderMoves_sorted [OF U, of p "moves E p"] ord by simp
  from x same obtain pre post where split: "ord = pre @ x # post" and fresh: "x \<notin> set pre"
    by (metis split_list_first)
  have before: "m \<in> set (moves E p) \<and> m \<noteq> x \<and> moveScore E p x \<le> moveScore E p m"
    if "m \<in> set pre" for m
  proof -
    from srt split that have "moveScore E p x \<le> moveScore E p m"
      by (simp add: sorted_wrt_append)
    moreover from that split same have "m \<in> set (moves E p)"
      by auto
    ultimately show ?thesis using that fresh by auto
  qed
  have d: "0 \<le> depth - 1" "depth - 1 < int fuel"
    using depth fuel by auto
  let ?val = "\<lambda>f m. fullMinimax E (nat (depth - 1)) (move E p m) f"
  have child: "minimax fuel E (move E p m) (depth - 1) NegInf PosInf f = Some (?val f m, move E p m)"
    for m f
    by (rule minimax_exact [OF U d])
  have next_turn: "turn E (move E p m) \<noteq> turn E p" for m
    by (rule rules_turn [OF R])
  have shallow: "nat (depth - 1) = 0 \<or> nat (depth - 1) = Suc 0" if "depth \<le> 2"
    using that depth by auto
  show ?thesis
  proof (cases "turn E p = White")
    case True
    have t: "turn E (move E p m) = Black" for m
      using next_turn [of m] True by (simp add: other_color)
    have top: "?val False x = Num 99999"
      using mated_value [OF R mate] t by simp
    have le: "?val False m \<le> Num 99999" for m
      using value_range [OF R] by blast
    have low: "?val False m < Num 99999" if "m \<in> set pre" for m
    proof (cases "depth \<le> 2")
      case True
      from before [OF that] only have "\<not> isCheckmate E (move E p m)"
        by auto
      from reply_below_mate [OF R t this shallow [OF True]] show ?thesis .
    next
      case False
      with rivals before [OF that] \<open>turn E p = White\<close> have "?val False m \<noteq> Num 99999"
        by auto
      with le [of m] show ?thesis by simp
    qed
    have "loopBest (\<lambda>q. minimax fuel E q (depth - 1) NegInf PosInf False) E ord p True
            (case ord of [] \<Rightarrow> None | m # _ \<Rightarrow> Some m) NegInf = Some (Some x, p)"
    proof (rule loopBest_max_first [OF U, where val = "?val False" and T = "Num 99999"])
      show "minimax fuel E (move E p m) (depth - 1) NegInf PosInf False
              = Some (?val False m, move E p m)" for m
        by (rule child)
      show "?val False m \<le> Num 99999" for m
        by (rule le)
      show "?val False x = Num 99999"
        by (rule top)
      show "((case ord of [] \<Rightarrow> None | m # _ \<Rightarrow> Some m) = Some x \<and> NegInf = Num 99999) \<or>
            (NegInf < Num 99999 \<and>
             (\<exists>pre post. ord = pre @ x # post \<and> (\<forall>m \<in> set pre. ?val False m < Num 99999)))"
        using split low by auto
    qed
    with True nonempty ord show ?thesis
      by (simp add: getBestMove_def Let_def)
  next
    case False
    then have b: "turn E p = Black"
      by (simp add: other_color)
    have t: "turn E (move E p m) = White" for m
      using next_turn [of m] b by (simp add: other_color)
    have top: "?val True x = Num (- 99999)"
      using mated_value [OF R mate] t by simp
    have ge: "Num (- 99999) \<le> ?val True m" for m
      using value_range [OF R] by blast
    have low: "Num (- 99999) < ?val True m" if "m \<in> set pre" for m
    proof (cases "depth \<le> 2")
      case True
      from before [OF that] only have "\<not> isCheckmate E (move E p m)"
        by auto
      from reply_above_mate [OF R t this shallow [OF True]] show ?thesis .
    next
      case nd: False
      with rivals before [OF that] False have "?val True m \<noteq> Num (- 99999)"
        by auto
      with ge [of m] show ?thesis by simp
    qed
    have "loopBest (\<lambda>q. minimax fuel E q (depth - 1) NegInf PosInf True) E ord p False
            (case ord of [] \<Rightarrow> None | m # _ \<Rightarrow> Some m) PosInf = Some (Some x, p)"
    proof (rule loopBest_min_first [OF U, where val = "?val True" and T = "Num (- 99999)"])
      show "minimax fuel E (move E p m) (depth - 1) NegInf PosInf True
              = Some (?val True m, move E p m)" for m
        by (rule child)
      show "Num (- 99999) \<le> ?val True m" for m
        by (rule ge)
      show "?val True x = Num (- 99999)"
        by (rule top)
      show "((case ord of [] \<Rightarrow> None | m # _ \<Rightarrow> Some m) = Some x \<and> PosInf = Num (- 99999)) \<or>
            (Num (- 99999) < PosInf \<and>
             (\<exists>pre post. ord = pre @ x # post \<and> (\<forall>m \<in> set pre. Num (- 99999) < ?val True m)))"
        using split low by auto
    qed
    with False nonempty ord show ?thesis
      by (simp add: getBestMove_def Let_def)
  qed
qed

lemma demo_live:
  "demoMoves p \<noteq> [] \<Longrightarrow>
     p = [] \<or> p = [''Kh1''] \<or> p = [''Kf8'', ''Kh1''] \<or> p = [''h6'', ''Kh1''] \<or>
     p = [''Qf6''] \<or> p = [''Qxf7+''] \<or> p = [''Kh8'', ''Qxf7+'']"
  by (simp add: demoMoves_def split: if_splits)

lemma demo_values:
  "evaluatePosition demo [] = 1418"
  "evaluatePosition demo [''Kh1''] = 1396"
  "evaluatePosition demo [''Kf8'', ''Kh1''] = 1422"
  "evaluatePosition demo [''h6'', ''Kh1''] = 1402"
  "evaluatePosition demo [''Qf6''] = 1409"
  "evaluatePosition demo [''Qxf7+''] = 1518"
  "evaluatePosition demo [''Kh8'', ''Qxf7+''] = 1534"
  by code_simp+

lemma demo_rules: "chessRules demo"
proof -
  have turns: "turn demo (move demo p m) \<noteq> turn demo p" for p m
    by (simp add: demo_def)
  have mate_over: "isGameOver demo p" if "isCheckmate demo p" for p
  proof (rule ccontr)
    assume "\<not> isGameOver demo p"
    then have "demoMoves p \<noteq> []"
      by (simp add: demo_def)
    from demo_live [OF this] that show False
      by (auto simp: demo_def demoMate_def)
  qed
  have stuck_over: "isGameOver demo p" if "moves demo p = []" for p
    using that by (simp add: demo_def)
  have bounded: "\<bar>evaluatePosition demo p\<bar> < 99999" if "\<not> isCheckmate demo p" for p
  proof (cases "demoMoves p = []")
    case True
    with that have "isDraw demo p"
      by (simp add: demo_def)
    with that show ?thesis
      by (simp add: evaluatePosition_def)
  next
    case False
    from demo_live [OF this] show ?thesis
      using demo_values by auto
  qed
  from turns mate_over stuck_over bounded show ?thesis
    unfolding chessRules_def by blast
qed

theorem mate_in_one_found_witness:
  "''Ra8#'' \<in> set (moves demo []) \<and> isCheckmate demo (move demo [] ''Ra8#'') \<and>
   getBestMove 1 demo [] 1 = Some (Some ''Ra8#'', []) \<and>
   getBestMove 2 demo [] 2 = Some (Some ''Ra8#'', []) \<and>
   ''Qf8#'' \<in> set (moves demo [''Kh8'', ''Qxf7+'']) \<and>
   isCheckmate demo (move demo [''Kh8'', ''Qxf7+''] ''Qf8#'') \<and>
   fullMinimax demo (nat (3 - 1)) (move demo [''Kh8'', ''Qxf7+''] ''Kh1'') False = Num 0 \<and>
   getBestMove 3 demo [''Kh8'', ''Qxf7+''] 3 = Some (Some ''Qf8#'', [''Kh8'', ''Qxf7+''])"
proof -
  have x: "''Ra8#'' \<in> set (moves demo [])"
    by (simp add: demo_def demoMoves_def)
  have mate: "isCheckmate demo (move demo [] ''Ra8#'')"
    by (simp add: demo_def demoMate_def)
  have only: "\<forall>m \<in> set (moves demo []). m \<noteq> ''Ra8#'' \<longrightarrow> \<not> isCheckmate demo (move demo [] m)"
    by (simp add: demo_def demoMoves_def demoMate_def)
  have d1: "(1::int) \<le> 1" and f1: "(1::int) \<le> int 1"
    by simp_all
  have d2: "(1::int) \<le> 2" and f2: "(2::int) \<le> int 2"
    by simp_all
  have a: "getBestMove 1 demo [] 1 = Some (Some ''Ra8#'', [])"
    by (rule mate_in_one_found [OF demo_undo demo_rules x mate only d1 f1]) simp
  have b: "getBestMove 2 demo [] 2 = Some (Some ''Ra8#'', [])"
    by (rule mate_in_one_found [OF demo_undo demo_rules x mate only d2 f2]) simp
  let ?p = "[''Kh8'', ''Qxf7+'']"
  have x': "''Qf8#'' \<in> set (moves demo ?p)"
    by (simp add: demo_def demoMoves_def)
  have mate': "isCheckmate demo (move demo ?p ''Qf8#'')"
    by (simp add: demo_def demoMate_def)
  have only': "\<forall>m \<in> set (moves demo ?p). m \<noteq> ''Qf8#'' \<longrightarrow> \<not> isCheckmate demo (move demo ?p m)"
    by (simp add: demo_def demoMoves_def demoMate_def)
  have d3: "(1::int) \<le> 3" and f3: "(3::int) \<le> int 3"
    by simp_all
  have v: "fullMinimax demo (nat (3 - 1)) (move demo ?p ''Kh1'') False = Num 0"
    by code_simp
  have w: "turn demo ?p = White"
    by (simp add: demo_def)
  have ms: "moves demo ?p = [''Qf8#'', ''Kh1'']"
    by (simp add: demo_def demoMoves_def)
  have rivals: "(3::int) \<le> 2 \<or>
       (\<forall>m \<in> set (moves demo ?p). m \<noteq> ''Qf8#'' \<and> moveScore demo ?p ''Qf8#'' \<le> moveScore demo ?p m \<longrightarrow>
          fullMinimax demo (nat (3 - 1)) (move demo ?p m) (turn demo ?p \<noteq> White)
            \<noteq> Num (if turn demo ?p = White then 99999 else - 99999))"
    using v by (simp add: ms w)
  have c: "getBestMove 3 demo ?p 3 = Some (Some ''Qf8#'', ?p)"
    by (rule mate_in_one_found [OF demo_undo demo_rules x' mate' only' d3 f3 rivals])
  from x mate a b x' mate' v c show ?thesis
    by (intro conjI)
qed

end
